theory Spec2Isabelle
  imports Main "HOL-Library.AList"
begin

section \<open>The page: elements, options and per-trigger state\<close>

text \<open>
  A shallow embedding of \<^verbatim>\<open>src/born-toggle.js\<close>. Elements of the page are
  numbered; everything the script reads from or writes to the host page is a field of
  the record \<open>page\<close>, and every method of the class takes the page and returns the
  page it leaves behind, or the exception it throws.

  Conventions of the embedding:
  \<^item> a selector is a string; what it selects is decided by the host's selector engine,
    the field \<open>selects\<close>, from the classes that the elements carry at the moment of the
    call. So \<open>matches p e sel\<close> is decided on the page \<open>p\<close> as it is, and the selector
    \<^verbatim>\<open>'.' + activeClass\<close> selects what the engine says it selects. Selectors are taken to
    be syntactically valid and class names to be valid tokens;
  \<^item> an absent (\<^verbatim>\<open>undefined\<close>) selector reaches the selector engine as the string
    \<^verbatim>\<open>"undefined"\<close>, as the host's string coercion makes it;
  \<^item> a hook is a function of its arguments to the truth value of what it returns; that
    it ran is recorded in the field \<open>calls\<close>. Hooks do not themselves change the page;
  \<^item> an option that the script only tests for truth (\<open>persist\<close>, \<open>unsetOnHoverOut\<close>,
    \<open>unsetSelf\<close>) is a \<open>bool\<close>, and \<open>timeout\<close> is a number with \<open>0\<close> for absent.
\<close>

type_synonym elem = nat

record js_event =
  evt_type :: string
  evt_target :: elem

datatype js_error = TypeError | SyntaxError

datatype auto_val = AutoNum int | AutoStr string | AutoBool bool | AutoObj

datatype hook_call =
  BeforeSet elem | BeforeUnsetAll elem | AfterSet elem | BeforeUnset elem | AfterUnset elem

datatype timer_fn = TimerSet elem | TimerUnset elem

text \<open>The options as written: in the data attribute or on the instance. Every key may be absent.\<close>

record raw_options =
  r_closeSelector :: "string option"
  r_activeClass :: "string option"
  r_unsetSelf :: "bool option"
  r_parent :: "string option"
  r_target :: "string option"
  r_event :: "string option"
  r_persist :: "bool option"
  r_unsetOnHoverOut :: "bool option"
  r_timeout :: "nat option"
  r_siblingSelector :: "string option"
  r_skipSelector :: "string option"
  r_auto :: "auto_val option"
  r_beforeUnset :: "(elem \<Rightarrow> bool) option"
  r_afterUnset :: "(elem \<Rightarrow> bool) option"
  r_beforeUnsetAll :: "(elem \<Rightarrow> bool) option"
  r_beforeSet :: "(elem \<Rightarrow> js_event option \<Rightarrow> bool) option"
  r_afterSet :: "(elem \<Rightarrow> bool) option"

text \<open>The options of one trigger, as \<^verbatim>\<open>_getOptions\<close> returns them.\<close>

record options =
  closeSelector :: string
  activeClass :: string
  unsetSelf :: bool
  parent :: "string option"
  target :: "string option"
  event :: "string option"
  persist :: bool
  unsetOnHoverOut :: bool
  timeout :: nat
  siblingSelector :: "string option"
  skipSelector :: "string option"
  auto :: "auto_val option"
  opt_beforeUnset :: "(elem \<Rightarrow> bool) option"
  opt_afterUnset :: "(elem \<Rightarrow> bool) option"
  opt_beforeUnsetAll :: "(elem \<Rightarrow> bool) option"
  opt_beforeSet :: "(elem \<Rightarrow> js_event option \<Rightarrow> bool) option"
  opt_afterSet :: "(elem \<Rightarrow> bool) option"

record callbacks =
  beforeUnset :: "elem \<Rightarrow> bool"
  afterUnset :: "elem \<Rightarrow> bool"
  beforeUnsetAll :: "elem \<Rightarrow> bool"
  beforeSet :: "elem \<Rightarrow> js_event option \<Rightarrow> bool"
  afterSet :: "elem \<Rightarrow> bool"

text \<open>
  \<^verbatim>\<open>trigger.toggle\<close>. The callbacks are absent until \<^verbatim>\<open>_setupCallbacks\<close> has run and
  \<open>methods\<close> is false until \<^verbatim>\<open>_setupMethods\<close> has; \<open>parentEl\<close> and \<open>targetEl\<close> are absent
  when the lookup found nothing.
\<close>

record toggle_state =
  options :: options
  parentEl :: "elem option"
  targetEl :: "elem option"
  callbacks :: "callbacks option"
  methods :: bool

datatype attr_val = NoAttr | Malformed | Parsed raw_options

record breakpoint =
  bp_min :: "nat option"
  bp_max :: "nat option"

record page =
  doc_order :: "elem list"
  ancestors :: "elem \<Rightarrow> elem list"
  selects :: "(elem \<Rightarrow> string set) \<Rightarrow> elem \<Rightarrow> string \<Rightarrow> bool"
  closeAttr :: "elem \<Rightarrow> string option"
  urlParams :: "string \<Rightarrow> bool"
  offsetWidth :: nat
  stringToNumber :: "string \<Rightarrow> int option"
  dataAttr :: "elem \<Rightarrow> attr_val"
  classList :: "elem \<Rightarrow> string set"
  toggle :: "(elem \<times> toggle_state) list"
  toggleTrigger :: "elem \<Rightarrow> elem option"
  triggerListeners :: "(elem \<times> string) set"
  clickListeners :: "elem set"
  bodyListeners :: "(string \<times> elem) list"
  leaveListeners :: "(elem \<times> elem) list"
  timers :: "(int \<times> timer_fn) list"
  calls :: "hook_call list"
  warnings :: "elem list"

text \<open>
  \<open>doc_order\<close> lists the elements of the document in document order and \<open>ancestors e\<close>
  the proper ancestors of \<open>e\<close>, nearest first. \<open>triggerListeners\<close> and \<open>clickListeners\<close>
  are sets because they register one and the same function
  (\<^verbatim>\<open>Toggle.toggleEventHandler\<close>, \<^verbatim>\<open>Toggle.closeElCallback\<close>), which the host registers
  once; \<open>bodyListeners\<close>, \<open>leaveListeners\<close> and \<open>timers\<close> are lists because every
  activation registers a closure of its own, here the pair of what the closure captured.
\<close>

section \<open>Host operations\<close>

definition sel_str :: "string option \<Rightarrow> string" where
  "sel_str s = (case s of None \<Rightarrow> ''undefined'' | Some x \<Rightarrow> x)"

definition has_class :: "page \<Rightarrow> elem \<Rightarrow> string \<Rightarrow> bool" where
  "has_class p e c = (c \<in> classList p e)"

definition add_class :: "elem \<Rightarrow> string \<Rightarrow> page \<Rightarrow> page" where
  "add_class e c p = p\<lparr>classList := (classList p)(e := insert c (classList p e))\<rparr>"

definition remove_class :: "elem \<Rightarrow> string \<Rightarrow> page \<Rightarrow> page" where
  "remove_class e c p = p\<lparr>classList := (classList p)(e := classList p e - {c})\<rparr>"

text \<open>\<^verbatim>\<open>e.matches(sel)\<close>, on the page as it is.\<close>

definition matches :: "page \<Rightarrow> elem \<Rightarrow> string \<Rightarrow> bool" where
  "matches p e sel = selects p (classList p) e sel"

definition querySelectorAll :: "page \<Rightarrow> string \<Rightarrow> elem list" where
  "querySelectorAll p sel = filter (\<lambda>e. matches p e sel) (doc_order p)"

definition querySelector :: "page \<Rightarrow> string \<Rightarrow> elem option" where
  "querySelector p sel = find (\<lambda>e. matches p e sel) (doc_order p)"

definition querySelector_in :: "page \<Rightarrow> elem \<Rightarrow> string \<Rightarrow> elem option" where
  "querySelector_in p root sel =
     find (\<lambda>e. root \<in> set (ancestors p e) \<and> matches p e sel) (doc_order p)"

definition closest :: "page \<Rightarrow> elem \<Rightarrow> string \<Rightarrow> elem option" where
  "closest p e sel = find (\<lambda>a. matches p a sel) (e # ancestors p e)"

definition parentNode :: "page \<Rightarrow> elem \<Rightarrow> elem option" where
  "parentNode p e = (case ancestors p e of [] \<Rightarrow> None | a # _ \<Rightarrow> Some a)"

definition node_contains :: "page \<Rightarrow> elem \<Rightarrow> elem \<Rightarrow> bool" where
  "node_contains p a b = (a = b \<or> a \<in> set (ancestors p b))"

text \<open>\<^verbatim>\<open>s.indexOf(needle) >= 0\<close>\<close>

primrec has_substring :: "string \<Rightarrow> string \<Rightarrow> bool" where
  "has_substring needle [] = (needle = [])"
| "has_substring needle (c # cs) =
     (take (length needle) (c # cs) = needle \<or> has_substring needle cs)"

definition log_call :: "hook_call \<Rightarrow> page \<Rightarrow> page" where
  "log_call c p = p\<lparr>calls := calls p @ [c]\<rparr>"

section \<open>The state machine\<close>

text \<open>\<^verbatim>\<open>static unset(trigger)\<close>\<close>

definition Toggle_unset :: "elem \<Rightarrow> page \<Rightarrow> js_error + page" where
  "Toggle_unset trigger p =
     (case map_of (toggle p) trigger of
        None \<Rightarrow> Inl TypeError
      | Some tg \<Rightarrow>
          let ac = activeClass (options tg) in
          if \<not> has_class p trigger ac then Inr p
          else (case callbacks tg of
              None \<Rightarrow> Inl TypeError
            | Some cb \<Rightarrow>
                let p1 = log_call (BeforeUnset trigger) p in
                if \<not> beforeUnset cb trigger then Inr p1
                else (case parentEl tg of
                    None \<Rightarrow> Inl TypeError
                  | Some pe \<Rightarrow> (case targetEl tg of
                      None \<Rightarrow> Inl TypeError
                    | Some te \<Rightarrow>
                        let p2 = remove_class te ac (remove_class pe ac (remove_class trigger ac p1));
                            p3 = p2\<lparr>clickListeners := clickListeners p2 - {te}\<rparr>
                        in Inr (log_call (AfterUnset trigger) p3)))))"

text \<open>The body of the \<^verbatim>\<open>forEach\<close> of \<^verbatim>\<open>unsetAll\<close>, for one element of the node list.\<close>

definition sweep_step :: "options \<Rightarrow> elem \<Rightarrow> page \<Rightarrow> js_error + page" where
  "sweep_step ro trigger p =
     (case map_of (toggle p) trigger of
        None \<Rightarrow> Inr p
      | Some tg \<Rightarrow>
          if \<not> matches p trigger (sel_str (skipSelector ro))
             \<and> (\<not> persist (options tg) \<or> matches p trigger (sel_str (siblingSelector ro)))
          then Toggle_unset trigger p
          else Inr p)"

fun sweep :: "options \<Rightarrow> elem list \<Rightarrow> page \<Rightarrow> js_error + page" where
  "sweep ro [] p = Inr p"
| "sweep ro (e # es) p =
     (case sweep_step ro e p of Inl x \<Rightarrow> Inl x | Inr p' \<Rightarrow> sweep ro es p')"

text \<open>
  \<^verbatim>\<open>static unsetAll(refTrigger)\<close>: the node list of \<^verbatim>\<open>querySelectorAll\<close> is static, so
  the loop runs over the elements that \<^verbatim>\<open>'.' + activeClass\<close> selected when it started; each
  of them is tested on the page as the earlier steps have left it.
\<close>

definition Toggle_unsetAll :: "elem \<Rightarrow> page \<Rightarrow> js_error + page" where
  "Toggle_unsetAll refTrigger p =
     (case map_of (toggle p) refTrigger of
        None \<Rightarrow> Inl TypeError
      | Some tg \<Rightarrow>
          sweep (options tg) (querySelectorAll p (CHR ''.'' # activeClass (options tg))) p)"

text \<open>
  Lines 223 to 260 of \<^verbatim>\<open>set\<close>: the active class goes on trigger, parent and target, the
  dismissal listeners and the timer are registered, and \<^verbatim>\<open>afterSet\<close> runs.
\<close>

definition activate :: "elem \<Rightarrow> options \<Rightarrow> elem \<Rightarrow> elem \<Rightarrow> string \<Rightarrow> page \<Rightarrow> page" where
  "activate trigger opts pe te triggerEvt p2 =
     (let ac = activeClass opts;
          p3 = add_class te ac (add_class pe ac (add_class trigger ac p2));
          bodyEvtType = (if has_substring ''touch'' triggerEvt then triggerEvt else ''click'');
          p4 = (if \<not> persist opts
                then p3\<lparr>bodyListeners := bodyListeners p3 @ [(bodyEvtType, trigger)]\<rparr>
                else p3);
          p5 = (if unsetOnHoverOut opts
                then p4\<lparr>leaveListeners := leaveListeners p4 @ [(pe, trigger)]\<rparr>
                else p4);
          p6 = (if timeout opts \<noteq> 0
                then p5\<lparr>timers := timers p5 @ [(int (timeout opts), TimerUnset trigger)]\<rparr>
                else p5);
          p7 = p6\<lparr>clickListeners := insert te (clickListeners p6)\<rparr>
      in log_call (AfterSet trigger) p7)"

text \<open>
  \<^verbatim>\<open>static set(trigger, evt, evtType)\<close>; an absent \<^verbatim>\<open>evtType\<close> is the empty string, which
  is what \<^verbatim>\<open>evtType || ''\<close> makes of it.
\<close>

definition Toggle_set :: "elem \<Rightarrow> js_event option \<Rightarrow> string \<Rightarrow> page \<Rightarrow> js_error + page" where
  "Toggle_set trigger evt evtType p =
     (let triggerEvt = evtType in
      case map_of (toggle p) trigger of
        None \<Rightarrow> Inl TypeError
      | Some tg \<Rightarrow> (case callbacks tg of
          None \<Rightarrow> Inl TypeError
        | Some cb \<Rightarrow>
            let p1 = log_call (BeforeSet trigger) p in
            if \<not> beforeSet cb trigger evt then Inr p1
            else
              let p1' = log_call (BeforeUnsetAll trigger) p1 in
              (case (if beforeUnsetAll cb trigger then Toggle_unsetAll trigger p1' else Inr p1') of
                 Inl x \<Rightarrow> Inl x
               | Inr p2 \<Rightarrow> (case parentEl tg of
                   None \<Rightarrow> Inl TypeError
                 | Some pe \<Rightarrow> (case targetEl tg of
                     None \<Rightarrow> Inl TypeError
                   | Some te \<Rightarrow> Inr (activate trigger (options tg) pe te triggerEvt p2))))))"

text \<open>\<^verbatim>\<open>static toggle(trigger, evt)\<close>\<close>

definition Toggle_toggle :: "elem \<Rightarrow> js_event option \<Rightarrow> page \<Rightarrow> js_error + page" where
  "Toggle_toggle trigger evt p =
     (let evtType = (case evt of None \<Rightarrow> [] | Some e \<Rightarrow> evt_type e) in
      case map_of (toggle p) trigger of
        None \<Rightarrow> Inl TypeError
      | Some tg \<Rightarrow>
          if has_class p trigger (activeClass (options tg)) then
            (if unsetSelf (options tg) \<and> evtType \<noteq> ''mouseenter''
             then Toggle_unset trigger p
             else Inr p)
          else Toggle_set trigger evt evtType p)"

section \<open>Dismissal callbacks\<close>

text \<open>
  \<^verbatim>\<open>blurCallback\<close>, the closure that \<^verbatim>\<open>set\<close> registers on the body: it captured
  \<^verbatim>\<open>bodyEvtType\<close> and \<^verbatim>\<open>trigger\<close>, and removes its own registration before it unsets.
\<close>

definition blurCallback :: "string \<Rightarrow> elem \<Rightarrow> js_event \<Rightarrow> page \<Rightarrow> js_error + page" where
  "blurCallback bodyEvtType trigger evt p =
     (case map_of (toggle p) trigger of
        None \<Rightarrow> Inl TypeError
      | Some tg \<Rightarrow> (case targetEl tg of
          None \<Rightarrow> Inl TypeError
        | Some te \<Rightarrow>
            if node_contains p te (evt_target evt) then Inr p
            else (case parentEl tg of
                None \<Rightarrow> Inl TypeError
              | Some pe \<Rightarrow>
                  if \<not> node_contains p pe (evt_target evt) \<and> evt_target evt \<noteq> trigger
                  then Toggle_unset trigger
                         (p\<lparr>bodyListeners := remove1 (bodyEvtType, trigger) (bodyListeners p)\<rparr>)
                  else Inr p)))"

text \<open>\<^verbatim>\<open>mouseLeaveCallback\<close>, registered on the parent element \<open>this\<close>.\<close>

definition mouseLeaveCallback :: "elem \<Rightarrow> elem \<Rightarrow> page \<Rightarrow> js_error + page" where
  "mouseLeaveCallback this trigger p =
     Toggle_unset trigger (p\<lparr>leaveListeners := remove1 (this, trigger) (leaveListeners p)\<rparr>)"

text \<open>A timer of \<^verbatim>\<open>window.setTimeout\<close> runs once, with no arguments beside the bound trigger.\<close>

definition fire_timer :: "int \<times> timer_fn \<Rightarrow> page \<Rightarrow> js_error + page" where
  "fire_timer tm p =
     (let p' = p\<lparr>timers := remove1 tm (timers p)\<rparr> in
      case snd tm of
        TimerSet trigger \<Rightarrow> Toggle_set trigger None [] p'
      | TimerUnset trigger \<Rightarrow> Toggle_unset trigger p')"

text \<open>\<^verbatim>\<open>static closeElCallback(evt)\<close>, with \<open>this\<close> the element it is registered on.\<close>

definition closeElCallback :: "elem \<Rightarrow> js_event \<Rightarrow> page \<Rightarrow> js_error + page" where
  "closeElCallback this evt p =
     (case toggleTrigger p this of
        None \<Rightarrow> Inl TypeError
      | Some tt \<Rightarrow> (case map_of (toggle p) tt of
          None \<Rightarrow> Inl TypeError
        | Some tg \<Rightarrow>
            let targetCloseEl = closest p (evt_target evt) (closeSelector (options tg));
                targetTriggerSelector =
                  (case targetCloseEl of
                     None \<Rightarrow> None
                   | Some c \<Rightarrow> (case closeAttr p c of
                       None \<Rightarrow> None
                     | Some a \<Rightarrow> if a = [] then None else Some a))
            in if targetCloseEl \<noteq> None
                  \<and> (matches p tt (case targetTriggerSelector of None \<Rightarrow> ''null'' | Some s \<Rightarrow> s)
                     \<or> targetTriggerSelector = None)
               then Toggle_unset tt p
               else Inr p))"

text \<open>
  \<^verbatim>\<open>static toggleEventHandler(evt)\<close>, with \<open>this\<close> the trigger. \<^verbatim>\<open>preventDefault\<close> and
  \<^verbatim>\<open>stopImmediatePropagation\<close> act on the event, of which the page keeps nothing.
\<close>

definition toggleEventHandler :: "elem \<Rightarrow> js_event \<Rightarrow> page \<Rightarrow> js_error + page" where
  "toggleEventHandler this evt p = Toggle_toggle this (Some evt) p"

section \<open>Setup\<close>

record toggle_instance =
  inst_options :: raw_options
  breakpoints :: "(string \<Rightarrow> breakpoint option) option"

definition or_else :: "'a option \<Rightarrow> 'a option \<Rightarrow> 'a option" where
  "or_else a b = (case a of None \<Rightarrow> b | Some x \<Rightarrow> Some x)"

definition no_options :: raw_options where
  "no_options = \<lparr>r_closeSelector = None, r_activeClass = None, r_unsetSelf = None,
     r_parent = None, r_target = None, r_event = None, r_persist = None,
     r_unsetOnHoverOut = None, r_timeout = None, r_siblingSelector = None,
     r_skipSelector = None, r_auto = None, r_beforeUnset = None, r_afterUnset = None,
     r_beforeUnsetAll = None, r_beforeSet = None, r_afterSet = None\<rparr>"

text \<open>
  \<^verbatim>\<open>_getOptions(trigger)\<close>: a key of the data attribute wins over the same key of the
  instance; then the three defaults are filled in.
\<close>

definition getOptions :: "toggle_instance \<Rightarrow> elem \<Rightarrow> page \<Rightarrow> js_error + options" where
  "getOptions inst trigger p =
     (case (case dataAttr p trigger of
              Malformed \<Rightarrow> Inl SyntaxError
            | NoAttr \<Rightarrow> Inr no_options
            | Parsed r \<Rightarrow> Inr r) of
        Inl x \<Rightarrow> Inl x
      | Inr t \<Rightarrow>
          let i = inst_options inst in
          Inr \<lparr>closeSelector =
                 (case or_else (r_closeSelector t) (r_closeSelector i) of
                    None \<Rightarrow> ''[data-toggle-close]''
                  | Some s \<Rightarrow> if s = [] then ''[data-toggle-close]'' else s),
               activeClass =
                 (case or_else (r_activeClass t) (r_activeClass i) of
                    None \<Rightarrow> ''toggle--active''
                  | Some s \<Rightarrow> if s = [] then ''toggle--active'' else s),
               unsetSelf =
                 (case or_else (r_unsetSelf t) (r_unsetSelf i) of None \<Rightarrow> True | Some b \<Rightarrow> b),
               parent = or_else (r_parent t) (r_parent i),
               target = or_else (r_target t) (r_target i),
               event = or_else (r_event t) (r_event i),
               persist = (or_else (r_persist t) (r_persist i) = Some True),
               unsetOnHoverOut = (or_else (r_unsetOnHoverOut t) (r_unsetOnHoverOut i) = Some True),
               timeout = (case or_else (r_timeout t) (r_timeout i) of None \<Rightarrow> 0 | Some n \<Rightarrow> n),
               siblingSelector = or_else (r_siblingSelector t) (r_siblingSelector i),
               skipSelector = or_else (r_skipSelector t) (r_skipSelector i),
               auto = or_else (r_auto t) (r_auto i),
               opt_beforeUnset = or_else (r_beforeUnset t) (r_beforeUnset i),
               opt_afterUnset = or_else (r_afterUnset t) (r_afterUnset i),
               opt_beforeUnsetAll = or_else (r_beforeUnsetAll t) (r_beforeUnsetAll i),
               opt_beforeSet = or_else (r_beforeSet t) (r_beforeSet i),
               opt_afterSet = or_else (r_afterSet t) (r_afterSet i)\<rparr>)"

text \<open>\<^verbatim>\<open>_getParent(trigger)\<close>, reading \<^verbatim>\<open>trigger.toggle\<close>, here \<open>tg\<close>.\<close>

definition getParent :: "elem \<Rightarrow> toggle_state \<Rightarrow> page \<Rightarrow> elem option" where
  "getParent trigger tg p =
     (let sel = sel_str (parent (options tg)) in
      or_else (closest p trigger sel) (or_else (querySelector p sel) (parentNode p trigger)))"

text \<open>\<^verbatim>\<open>_getTarget(trigger)\<close>, reading \<^verbatim>\<open>trigger.toggle\<close>, here \<open>tg\<close>.\<close>

definition getTarget :: "toggle_state \<Rightarrow> page \<Rightarrow> js_error + elem option" where
  "getTarget tg p =
     (let targetSelector = sel_str (target (options tg));
          targetEl = querySelectorAll p targetSelector
      in if length targetEl > 1
         then (case parentEl tg of
                 None \<Rightarrow> Inl TypeError
               | Some pe \<Rightarrow> Inr (querySelector_in p pe targetSelector))
         else Inr (case targetEl of [] \<Rightarrow> None | x # _ \<Rightarrow> Some x))"

definition setupCallbacks :: "toggle_state \<Rightarrow> toggle_state" where
  "setupCallbacks tg =
     (let opts = options tg in
      tg\<lparr>callbacks := Some
        \<lparr>beforeUnset = (case opt_beforeUnset opts of None \<Rightarrow> (\<lambda>_. True) | Some f \<Rightarrow> f),
         afterUnset = (case opt_afterUnset opts of None \<Rightarrow> (\<lambda>_. True) | Some f \<Rightarrow> f),
         beforeUnsetAll = (case opt_beforeUnsetAll opts of None \<Rightarrow> (\<lambda>_. True) | Some f \<Rightarrow> f),
         beforeSet = (case opt_beforeSet opts of None \<Rightarrow> (\<lambda>_ _. True) | Some f \<Rightarrow> f),
         afterSet = (case opt_afterSet opts of None \<Rightarrow> (\<lambda>_. True) | Some f \<Rightarrow> f)\<rparr>\<rparr>)"

definition setupMethods :: "toggle_state \<Rightarrow> toggle_state" where
  "setupMethods tg = tg\<lparr>methods := True\<rparr>"

text \<open>\<^verbatim>\<open>s.split(' ')\<close>\<close>

fun split_space :: "string \<Rightarrow> string list" where
  "split_space [] = [[]]"
| "split_space (c # cs) =
     (if c = CHR '' '' then [] # split_space cs
      else (case split_space cs of [] \<Rightarrow> [[c]] | w # ws \<Rightarrow> (c # w) # ws))"

definition setupHandlers :: "elem \<Rightarrow> toggle_state \<Rightarrow> page \<Rightarrow> page" where
  "setupHandlers trigger tg p =
     (let evtType = split_space
            (case event (options tg) of None \<Rightarrow> ''click'' | Some s \<Rightarrow> if s = [] then ''click'' else s)
      in p\<lparr>triggerListeners := triggerListeners p \<union> (\<lambda>currentEvt. (trigger, currentEvt)) ` set evtType\<rparr>)"

text \<open>The truth value of \<^verbatim>\<open>auto\<close>, and the number the host makes of it (\<open>None\<close> is NaN).\<close>

definition truthy_auto :: "auto_val \<Rightarrow> bool" where
  "truthy_auto a =
     (case a of AutoNum n \<Rightarrow> n \<noteq> 0 | AutoStr s \<Rightarrow> s \<noteq> [] | AutoBool b \<Rightarrow> b | AutoObj \<Rightarrow> True)"

definition toNumber :: "page \<Rightarrow> auto_val \<Rightarrow> int option" where
  "toNumber p a =
     (case a of
        AutoNum n \<Rightarrow> Some n
      | AutoStr s \<Rightarrow> stringToNumber p s
      | AutoBool b \<Rightarrow> Some (if b then 1 else 0)
      | AutoObj \<Rightarrow> None)"

text \<open>Lines 49 to 73 of \<^verbatim>\<open>_setupTrigger\<close>: what the option \<^verbatim>\<open>auto\<close> starts.\<close>

definition auto_activation :: "toggle_instance \<Rightarrow> elem \<Rightarrow> toggle_state \<Rightarrow> page \<Rightarrow> js_error + page" where
  "auto_activation inst trigger tg p =
     (case auto (options tg) of
        None \<Rightarrow> Inr p
      | Some a \<Rightarrow>
          if \<not> truthy_auto a then Inr p
          else (case toNumber p a of
              Some n \<Rightarrow> Inr (p\<lparr>timers := timers p @ [(n, TimerSet trigger)]\<rparr>)
            | None \<Rightarrow> (case a of
                AutoStr s \<Rightarrow>
                  if urlParams p s then Toggle_set trigger None [] p
                  else (case breakpoints inst of
                      None \<Rightarrow> Inr p
                    | Some table \<Rightarrow> (case table s of
                        None \<Rightarrow> Toggle_unset trigger p
                      | Some matchedBreakpoint \<Rightarrow>
                          if (case bp_min matchedBreakpoint of
                                None \<Rightarrow> True | Some m \<Rightarrow> m = 0 \<or> m \<le> offsetWidth p)
                             \<and> (case bp_max matchedBreakpoint of
                                  None \<Rightarrow> True | Some m \<Rightarrow> m = 0 \<or> offsetWidth p \<le> m)
                          then Toggle_set trigger None [] p
                          else Toggle_unset trigger p))
              | _ \<Rightarrow> Toggle_set trigger None [] p)))"

text \<open>\<^verbatim>\<open>_setupTrigger(trigger)\<close>\<close>

definition setupTrigger :: "toggle_instance \<Rightarrow> elem \<Rightarrow> page \<Rightarrow> js_error + page" where
  "setupTrigger inst trigger p =
     (case getOptions inst trigger p of
        Inl x \<Rightarrow> Inl x
      | Inr opts \<Rightarrow>
          let old = map_of (toggle p) trigger;
              tg1 = \<lparr>options = opts, parentEl = None, targetEl = None,
                     callbacks = (case old of None \<Rightarrow> None | Some t \<Rightarrow> callbacks t),
                     methods = (case old of None \<Rightarrow> False | Some t \<Rightarrow> methods t)\<rparr>;
              tg2 = tg1\<lparr>parentEl := getParent trigger tg1 p\<rparr>
          in (case getTarget tg2 p of
                Inl x \<Rightarrow> Inl x
              | Inr tgt \<Rightarrow>
                  let tg3 = tg2\<lparr>targetEl := tgt\<rparr> in
                  (case tgt of
                     None \<Rightarrow>
                       Inr (p\<lparr>toggle := AList.update trigger tg3 (toggle p),
                              warnings := warnings p @ [trigger]\<rparr>)
                   | Some te \<Rightarrow>
                       let tg4 = setupMethods (setupCallbacks tg3);
                           p1 = p\<lparr>toggle := AList.update trigger tg4 (toggle p),
                                  toggleTrigger := (toggleTrigger p)(te \<mapsto> trigger)\<rparr>;
                           p2 = setupHandlers trigger tg4 p1
                       in (case auto_activation inst trigger tg4 p2 of
                             Inl x \<Rightarrow> Inl x
                           | Inr p3 \<Rightarrow> Inr (p3\<lparr>dataAttr := (dataAttr p3)(trigger := NoAttr)\<rparr>)))))"

text \<open>
  Modelled from the spec: \<^verbatim>\<open>callbackOnElements\<close> of the package
  \<^verbatim>\<open>@borngroup/born-utilities\<close>, which is imported and not part of the sources. By its
  contract it invokes the callback once for each element, in order; an exception of
  the callback ends it.
\<close>

fun callbackOnElements ::
  "elem list \<Rightarrow> (elem \<Rightarrow> page \<Rightarrow> js_error + page) \<Rightarrow> page \<Rightarrow> js_error + page" where
  "callbackOnElements [] f p = Inr p"
| "callbackOnElements (e # es) f p =
     (case f e p of Inl x \<Rightarrow> Inl x | Inr p' \<Rightarrow> callbackOnElements es f p')"

text \<open>The constructor, as far as it sets triggers up.\<close>

definition Toggle_constructor :: "toggle_instance \<Rightarrow> elem list \<Rightarrow> page \<Rightarrow> js_error + page" where
  "Toggle_constructor inst triggers p = callbackOnElements triggers (setupTrigger inst) p"

section \<open>Operations on a page\<close>

datatype action =
    Set elem "js_event option" string
  | Unset elem
  | Toggle elem "js_event option"
  | UnsetAll elem
  | Handler elem js_event
  | Blur string elem js_event
  | MouseLeave elem elem
  | Timer int timer_fn
  | CloseEl elem js_event

fun perform :: "action \<Rightarrow> page \<Rightarrow> js_error + page" where
  "perform (Set t evt ty) p = Toggle_set t evt ty p"
| "perform (Unset t) p = Toggle_unset t p"
| "perform (Toggle t evt) p = Toggle_toggle t evt p"
| "perform (UnsetAll t) p = Toggle_unsetAll t p"
| "perform (Handler t evt) p = toggleEventHandler t evt p"
| "perform (Blur ty t evt) p = blurCallback ty t evt p"
| "perform (MouseLeave pe t) p = mouseLeaveCallback pe t p"
| "perform (Timer d f) p = fire_timer (d, f) p"
| "perform (CloseEl el evt) p = closeElCallback el evt p"

fun run :: "action list \<Rightarrow> page \<Rightarrow> js_error + page" where
  "run [] p = Inr p"
| "run (a # as) p = (case perform a p of Inl x \<Rightarrow> Inl x | Inr p' \<Rightarrow> run as p')"

section \<open>Predicates on pages\<close>

text \<open>A trigger is active when it carries its own active class.\<close>

definition active :: "page \<Rightarrow> elem \<Rightarrow> bool" where
  "active p t =
     (case map_of (toggle p) t of
        None \<Rightarrow> False
      | Some tg \<Rightarrow> has_class p t (activeClass (options tg)))"

definition triple :: "elem \<Rightarrow> toggle_state \<Rightarrow> elem set" where
  "triple t tg = insert t (set_option (parentEl tg) \<union> set_option (targetEl tg))"

text \<open>The marker of a trigger is on all of trigger, parent and target, or on none.\<close>

definition marker_agrees :: "page \<Rightarrow> elem \<Rightarrow> toggle_state \<Rightarrow> bool" where
  "marker_agrees p t tg =
     (\<forall>e \<in> triple t tg.
        has_class p e (activeClass (options tg)) = has_class p t (activeClass (options tg)))"

text \<open>The trigger \<open>t\<close> shares none of its three elements with another trigger.\<close>

definition isolated :: "page \<Rightarrow> elem \<Rightarrow> toggle_state \<Rightarrow> bool" where
  "isolated p t tg =
     (\<forall>u \<in> fst ` set (toggle p).
        case map_of (toggle p) u of
          None \<Rightarrow> True
        | Some tu \<Rightarrow> u \<noteq> t \<longrightarrow> triple u tu \<inter> triple t tg = {})"


text \<open>An operation has returned, and the trigger is active, or inactive, on the page it returned.\<close>

definition active_after :: "js_error + page \<Rightarrow> elem \<Rightarrow> bool" where
  "active_after r t = (case r of Inl _ \<Rightarrow> False | Inr p \<Rightarrow> active p t)"


section \<open>The sweep as the specification words it\<close>




section \<open>Sample pages\<close>

text \<open>
  A selector engine for the samples. A selector that starts with a dot is a chain of
  class names: \<^verbatim>\<open>.a.b\<close> selects the elements that carry both the class \<^verbatim>\<open>a\<close> and the
  class \<^verbatim>\<open>b\<close>. Every other selector selects nothing, unless a page says otherwise.
\<close>

fun split_dot :: "string \<Rightarrow> string list" where
  "split_dot [] = [[]]"
| "split_dot (c # cs) =
     (if c = CHR ''.'' then [] # split_dot cs
      else (case split_dot cs of [] \<Rightarrow> [[c]] | w # ws \<Rightarrow> (c # w) # ws))"

definition class_selector :: "(elem \<Rightarrow> string set) \<Rightarrow> elem \<Rightarrow> string \<Rightarrow> bool" where
  "class_selector cl e s =
     (case s of
        [] \<Rightarrow> False
      | c # cs \<Rightarrow> c = CHR ''.'' \<and> (\<forall>n \<in> set (split_dot cs). n \<noteq> [] \<and> n \<in> cl e))"

text \<open>
  The body \<open>0\<close> holds two containers, \<open>1\<close> with the elements \<open>2\<close>, \<open>3\<close> and \<open>4\<close>, and
  \<open>5\<close> with \<open>6\<close> to \<open>9\<close>. Nothing is bound; the examples below bind triggers by
  updating the field \<open>toggle\<close>.
\<close>

definition default_options :: options where
  "default_options = \<lparr>closeSelector = ''[data-toggle-close]'', activeClass = ''toggle--active'',
     unsetSelf = True, parent = None, target = None, event = None, persist = False,
     unsetOnHoverOut = False, timeout = 0, siblingSelector = None, skipSelector = None,
     auto = None, opt_beforeUnset = None, opt_afterUnset = None, opt_beforeUnsetAll = None,
     opt_beforeSet = None, opt_afterSet = None\<rparr>"

definition pass_callbacks :: callbacks where
  "pass_callbacks = \<lparr>beforeUnset = (\<lambda>_. True), afterUnset = (\<lambda>_. True),
     beforeUnsetAll = (\<lambda>_. True), beforeSet = (\<lambda>_ _. True), afterSet = (\<lambda>_. True)\<rparr>"

definition bound_to :: "options \<Rightarrow> elem \<Rightarrow> elem \<Rightarrow> callbacks \<Rightarrow> toggle_state" where
  "bound_to opts pe te cb =
     \<lparr>options = opts, parentEl = Some pe, targetEl = Some te, callbacks = Some cb, methods = True\<rparr>"

definition blank_page :: page where
  "blank_page = \<lparr>doc_order = [0, 1, 2, 3, 4, 5, 6, 7, 8, 9],
     ancestors = (\<lambda>e. if e = 0 then [] else if e = 1 \<or> e = 5 then [0]
                      else if e < 5 then [1, 0] else [5, 0]),
     selects = class_selector, closeAttr = (\<lambda>e. None), urlParams = (\<lambda>s. False),
     offsetWidth = 1024, stringToNumber = (\<lambda>s. None), dataAttr = (\<lambda>e. NoAttr),
     classList = (\<lambda>e. {}), toggle = [], toggleTrigger = (\<lambda>e. None), triggerListeners = {},
     clickListeners = {}, bodyListeners = [], leaveListeners = [], timers = [], calls = [],
     warnings = []\<rparr>"

text \<open>The same page with the active class of the default options on the given elements.\<close>

definition marked :: "elem list \<Rightarrow> page \<Rightarrow> page" where
  "marked es p = p\<lparr>classList := (\<lambda>e. if e \<in> set es then {''toggle--active''} else {})\<rparr>"

definition type_of_event :: "js_event option \<Rightarrow> string" where
  "type_of_event evt = (case evt of None \<Rightarrow> [] | Some e \<Rightarrow> evt_type e)"

text \<open>One trigger, \<open>2\<close>, with parent \<open>1\<close> and target \<open>3\<close>.\<close>

definition one_trigger :: "options \<Rightarrow> callbacks \<Rightarrow> page" where
  "one_trigger opts cb = blank_page\<lparr>toggle := [(2, bound_to opts 1 3 cb)]\<rparr>"

definition click_on :: "elem \<Rightarrow> js_event" where
  "click_on e = \<lparr>evt_type = ''click'', evt_target = e\<rparr>"

definition mouseenter_on :: "elem \<Rightarrow> js_event" where
  "mouseenter_on e = \<lparr>evt_type = ''mouseenter'', evt_target = e\<rparr>"

text \<open>
  A page before setup: the elements \<open>3\<close> and \<open>7\<close> carry the class \<^verbatim>\<open>panel\<close>, the selector
  \<^verbatim>\<open>#only\<close> selects \<open>4\<close>, and the element \<open>t\<close> carries the data attribute with the
  options \<open>r\<close>.
\<close>

definition plain_instance :: toggle_instance where
  "plain_instance = \<lparr>inst_options = no_options, breakpoints = None\<rparr>"

definition attr_page :: "elem \<Rightarrow> raw_options \<Rightarrow> page" where
  "attr_page t r = blank_page
     \<lparr>selects := (\<lambda>cl e s. if s = ''#only'' then e = 4 else class_selector cl e s),
      dataAttr := (\<lambda>e. if e = t then Parsed r else NoAttr),
      classList := (\<lambda>e. if e = 3 \<or> e = 7 then {''panel''} else {})\<rparr>"

text \<open>
  A page before setup with three declared triggers: the container \<open>1\<close>, whose target
  selector finds nothing, and the elements \<open>2\<close> and \<open>6\<close>, whose option \<^verbatim>\<open>auto\<close> names a
  parameter that is in the URL.
\<close>

definition three_declared :: page where
  "three_declared = blank_page
     \<lparr>selects := (\<lambda>cl e s. if s = ''#only'' then e = 4 else class_selector cl e s),
      urlParams := (\<lambda>s. s = ''promo''),
      dataAttr := (\<lambda>e.
        if e = 1 then Parsed (no_options\<lparr>r_target := Some ''.none''\<rparr>)
        else if e = 2 then Parsed (no_options\<lparr>r_target := Some ''#only'',
                                               r_auto := Some (AutoStr ''promo'')\<rparr>)
        else if e = 6 then Parsed (no_options\<lparr>r_target := Some ''.panel'',
                                               r_auto := Some (AutoStr ''promo'')\<rparr>)
        else NoAttr),
      classList := (\<lambda>e. if e = 3 \<or> e = 7 then {''panel''} else {})\<rparr>"

text \<open>
  Two triggers \<open>2\<close> and \<open>4\<close> in the same container, with the container as the parent of
  both, and a third trigger \<open>6\<close> that shares no element with them.
\<close>

definition shared_parent :: page where
  "shared_parent = blank_page
     \<lparr>toggle := [(2, bound_to default_options 1 3 pass_callbacks),
                  (4, bound_to default_options 1 8 pass_callbacks),
                  (6, bound_to default_options 5 7 pass_callbacks)]\<rparr>"

text \<open>
  Two triggers \<open>2\<close> and \<open>6\<close> of one sibling group, selected by \<^verbatim>\<open>[data-tab]\<close>; the
  elements of the second carry the default active class.
\<close>

definition tab_options :: options where
  "tab_options = default_options\<lparr>persist := True, siblingSelector := Some ''[data-tab]''\<rparr>"

definition group_page :: "toggle_state \<Rightarrow> toggle_state \<Rightarrow> page" where
  "group_page t2 t6 = (marked [5, 6, 7] blank_page)
     \<lparr>selects := (\<lambda>cl e s. if s = ''[data-tab]'' then e = 2 \<or> e = 6 else class_selector cl e s),
      toggle := [(2, t2), (6, t6)]\<rparr>"

definition tabs :: "callbacks \<Rightarrow> page" where
  "tabs cb = group_page (bound_to tab_options 1 3 cb) (bound_to tab_options 5 7 pass_callbacks)"

text \<open>The same group with the active class \<open>c\<close> for both triggers, the second one active.\<close>

definition tabs_with_class :: "string \<Rightarrow> string \<Rightarrow> page" where
  "tabs_with_class c2 c6 =
     (group_page (bound_to (tab_options\<lparr>activeClass := c2\<rparr>) 1 3 pass_callbacks)
                 (bound_to (tab_options\<lparr>activeClass := c6\<rparr>) 5 7 pass_callbacks))
       \<lparr>classList := (\<lambda>e. if e = 5 \<or> e = 6 \<or> e = 7 then {c6} else {})\<rparr>"

text \<open>The group with nothing active, where the second trigger is the target of the first.\<close>

definition tab_in_tab :: page where
  "tab_in_tab =
     (group_page (bound_to tab_options 1 6 pass_callbacks) (bound_to tab_options 5 7 pass_callbacks))
       \<lparr>classList := (\<lambda>e. {})\<rparr>"

text \<open>
  A page with a selector that reads the active class of another element:
  \<^verbatim>\<open>.box:not(.toggle--active) > *\<close> selects the children \<open>2\<close>, \<open>3\<close> and \<open>4\<close> of the box \<open>1\<close>
  while the box does not carry the active class. The trigger \<open>2\<close> has the box as its
  parent, the persistent trigger \<open>4\<close> has not; both are active. The group \<^verbatim>\<open>[data-tab]\<close>
  is \<open>4\<close> and \<open>6\<close>, and the options of the trigger \<open>6\<close> are a parameter.
\<close>

definition box_page :: "options \<Rightarrow> page" where
  "box_page opts6 = (marked [0, 1, 2, 3, 4, 8] blank_page)
     \<lparr>selects := (\<lambda>cl e s.
        if s = ''[data-tab]'' then e = 4 \<or> e = 6
        else if s = ''.box:not(.toggle--active) > *''
          then (e = 2 \<or> e = 3 \<or> e = 4) \<and> ''toggle--active'' \<notin> cl 1
        else class_selector cl e s),
      toggle := [(2, bound_to default_options 1 3 pass_callbacks),
                  (4, bound_to tab_options 0 8 pass_callbacks),
                  (6, bound_to opts6 5 7 pass_callbacks)]\<rparr>"

text \<open>An active trigger whose active class is \<^verbatim>\<open>open\<close>, beside a trigger with the default class.\<close>

definition other_class :: page where
  "other_class = blank_page
     \<lparr>classList := (\<lambda>e. if e = 1 \<or> e = 2 \<or> e = 3 then {''open''} else {}),
      toggle := [(2, bound_to (default_options\<lparr>activeClass := ''open''\<rparr>) 1 3 pass_callbacks),
                  (6, bound_to default_options 5 7 pass_callbacks)]\<rparr>"

text \<open>
  The container \<open>1\<close> is itself a persistent trigger, and the parent of the trigger
  \<open>2\<close>; both are active.
\<close>

definition nested :: page where
  "nested = (marked [0, 1, 2, 3, 4] blank_page)
     \<lparr>toggle := [(1, bound_to (default_options\<lparr>persist := True\<rparr>) 0 4 pass_callbacks),
                  (2, bound_to default_options 1 3 pass_callbacks),
                  (6, bound_to default_options 5 7 pass_callbacks)]\<rparr>"

text \<open>An active trigger \<open>2\<close> and an active persistent trigger \<open>8\<close>, beside the trigger \<open>6\<close>.\<close>

definition mixed :: page where
  "mixed = (marked [1, 2, 3, 5, 8, 9] blank_page)
     \<lparr>toggle := [(2, bound_to default_options 1 3 pass_callbacks),
                  (6, bound_to default_options 5 7 pass_callbacks),
                  (8, bound_to (default_options\<lparr>persist := True\<rparr>) 5 9 pass_callbacks)]\<rparr>"

lemmas sample_defs =
  default_options_def pass_callbacks_def bound_to_def blank_page_def marked_def
  one_trigger_def click_on_def mouseenter_on_def class_selector_def

lemmas eval_defs =
  Toggle_set_def Toggle_unset_def Toggle_unsetAll_def activate_def sweep_step_def has_class_def
  add_class_def remove_class_def log_call_def matches_def querySelectorAll_def sel_str_def Let_def

lemmas setup_defs =
  setupTrigger_def getOptions_def getParent_def getTarget_def setupCallbacks_def
  setupMethods_def setupHandlers_def auto_activation_def truthy_auto_def toNumber_def
  or_else_def no_options_def plain_instance_def attr_page_def three_declared_def
  querySelector_def querySelector_in_def closest_def parentNode_def

lemmas page_defs =
  shared_parent_def tab_options_def group_page_def tabs_def tabs_with_class_def
  tab_in_tab_def box_page_def other_class_def nested_def mixed_def

section \<open>Frame lemmas\<close>

lemma unset_keeps:
  assumes "Toggle_unset t p = Inr p'"
  shows "toggle p' = toggle p" and "selects p' = selects p" and "doc_order p' = doc_order p"
  using assms
  by (auto simp: Toggle_unset_def Let_def log_call_def remove_class_def
           split: option.splits if_splits)

lemma sweep_step_keeps:
  assumes "sweep_step ro e p = Inr p'"
  shows "toggle p' = toggle p" and "selects p' = selects p" and "doc_order p' = doc_order p"
  using assms unset_keeps [of e p p']
  by (auto simp: sweep_step_def split: option.splits if_splits)

lemma sweep_unbound:
  "sweep ro es p = sweep ro (filter (\<lambda>e. map_of (toggle p) e \<noteq> None) es) p"
proof (induction es arbitrary: p)
  case Nil
  show ?case by simp
next
  case (Cons e es)
  show ?case
  proof (cases "map_of (toggle p) e")
    case None
    then have "sweep_step ro e p = Inr p" by (simp add: sweep_step_def)
    with None Cons.IH [of p] show ?thesis by simp
  next
    case (Some tg)
    show ?thesis
    proof (cases "sweep_step ro e p")
      case (Inl x)
      with Some show ?thesis by simp
    next
      case (Inr p')
      then have "toggle p' = toggle p" by (rule sweep_step_keeps)
      with Inr Some Cons.IH [of p'] show ?thesis by simp
    qed
  qed
qed

lemma sweep_keeps:
  assumes "sweep ro es p = Inr p'"
  shows "toggle p' = toggle p \<and> selects p' = selects p \<and> doc_order p' = doc_order p"
  using assms
proof (induction es arbitrary: p)
  case Nil
  then show ?case by simp
next
  case (Cons e es)
  then obtain q where q: "sweep_step ro e p = Inr q" and r: "sweep ro es q = Inr p'"
    by (auto split: sum.splits)
  from Cons.IH [OF r] sweep_step_keeps [OF q] show ?case by simp
qed

lemma unsetAll_keeps:
  assumes "Toggle_unsetAll t p = Inr p'"
  shows "toggle p' = toggle p \<and> selects p' = selects p \<and> doc_order p' = doc_order p"
  using assms sweep_keeps
  by (auto simp: Toggle_unsetAll_def split: option.splits)

text \<open>The ways in which \<^verbatim>\<open>unset\<close> returns.\<close>

lemma unset_cases:
  assumes "Toggle_unset t p = Inr p'"
  obtains (same) "p' = p"
  | (veto) "p' = p\<lparr>calls := calls p @ [BeforeUnset t]\<rparr>"
  | (removed) tg cb pe te where "map_of (toggle p) t = Some tg" and "callbacks tg = Some cb"
      and "parentEl tg = Some pe" and "targetEl tg = Some te"
      and "has_class p t (activeClass (options tg))" and "beforeUnset cb t"
      and "p' = p\<lparr>classList := (\<lambda>e. if e \<in> {t, pe, te}
                                     then classList p e - {activeClass (options tg)}
                                     else classList p e),
                   clickListeners := clickListeners p - {te},
                   calls := calls p @ [BeforeUnset t, AfterUnset t]\<rparr>"
proof (cases "map_of (toggle p) t")
  case None
  with assms show ?thesis by (simp add: Toggle_unset_def)
next
  case (Some tg)
  show ?thesis
  proof (cases "has_class p t (activeClass (options tg))")
    case False
    with assms Some have "p' = p" by (simp add: Toggle_unset_def Let_def)
    then show ?thesis by (rule same)
  next
    case True
    with assms Some obtain cb where cb: "callbacks tg = Some cb"
      by (auto simp: Toggle_unset_def Let_def split: option.splits)
    show ?thesis
    proof (cases "beforeUnset cb t")
      case False
      with assms Some True cb have "p' = p\<lparr>calls := calls p @ [BeforeUnset t]\<rparr>"
        by (simp add: Toggle_unset_def Let_def log_call_def)
      then show ?thesis by (rule veto)
    next
      case go: True
      with assms Some True cb obtain pe te
        where pe: "parentEl tg = Some pe" and te: "targetEl tg = Some te"
        by (auto simp: Toggle_unset_def Let_def split: option.splits)
      with assms Some True cb go
      have "p' = p\<lparr>classList := (\<lambda>e. if e \<in> {t, pe, te}
                                     then classList p e - {activeClass (options tg)}
                                     else classList p e),
                   clickListeners := clickListeners p - {te},
                   calls := calls p @ [BeforeUnset t, AfterUnset t]\<rparr>"
        by (auto simp: Toggle_unset_def Let_def log_call_def remove_class_def fun_eq_iff)
      with Some cb pe te True go show ?thesis by (rule removed)
    qed
  qed
qed

lemma log_call_fields [simp]:
  "classList (log_call c p) = classList p"
  "toggle (log_call c p) = toggle p"
  "selects (log_call c p) = selects p"
  "doc_order (log_call c p) = doc_order p"
  "calls (log_call c p) = calls p @ [c]"
  by (simp_all add: log_call_def)

lemma activate_fields:
  "classList (activate t opts pe te ty p) =
     (\<lambda>e. if e \<in> {t, pe, te} then insert (activeClass opts) (classList p e) else classList p e)"
  "toggle (activate t opts pe te ty p) = toggle p"
  "selects (activate t opts pe te ty p) = selects p"
  "doc_order (activate t opts pe te ty p) = doc_order p"
  "calls (activate t opts pe te ty p) = calls p @ [AfterSet t]"
  by (auto simp: activate_def Let_def add_class_def log_call_def fun_eq_iff)

text \<open>The ways in which \<^verbatim>\<open>set\<close> returns.\<close>

lemma set_cases:
  assumes "Toggle_set t evt ty p = Inr p'"
  obtains (veto) tg cb where "map_of (toggle p) t = Some tg" and "callbacks tg = Some cb"
      and "\<not> beforeSet cb t evt" and "p' = log_call (BeforeSet t) p"
  | (applied) tg cb pe te p2 where "map_of (toggle p) t = Some tg" and "callbacks tg = Some cb"
      and "parentEl tg = Some pe" and "targetEl tg = Some te" and "beforeSet cb t evt"
      and "(if beforeUnsetAll cb t
            then Toggle_unsetAll t (log_call (BeforeUnsetAll t) (log_call (BeforeSet t) p))
            else Inr (log_call (BeforeUnsetAll t) (log_call (BeforeSet t) p))) = Inr p2"
      and "p' = activate t (options tg) pe te ty p2"
proof -
  from assms obtain tg where tg: "map_of (toggle p) t = Some tg"
    by (cases "map_of (toggle p) t") (simp_all add: Toggle_set_def)
  with assms obtain cb where cb: "callbacks tg = Some cb"
    by (cases "callbacks tg") (simp_all add: Toggle_set_def)
  show ?thesis
  proof (cases "beforeSet cb t evt")
    case False
    with assms tg cb have "p' = log_call (BeforeSet t) p"
      by (simp add: Toggle_set_def Let_def)
    with tg cb False show ?thesis by (rule veto)
  next
    case True
    let ?q = "log_call (BeforeUnsetAll t) (log_call (BeforeSet t) p)"
    let ?r = "if beforeUnsetAll cb t then Toggle_unsetAll t ?q else Inr ?q"
    from assms tg cb True
    have eq: "(case ?r of Inl x \<Rightarrow> Inl x
               | Inr p2 \<Rightarrow> (case parentEl tg of None \<Rightarrow> Inl TypeError
                   | Some pe \<Rightarrow> (case targetEl tg of None \<Rightarrow> Inl TypeError
                       | Some te \<Rightarrow> Inr (activate t (options tg) pe te ty p2)))) = Inr p'"
      by (simp add: Toggle_set_def Let_def)
    then obtain p2 where p2: "?r = Inr p2" by (cases ?r) simp_all
    with eq obtain pe where pe: "parentEl tg = Some pe" by (cases "parentEl tg") simp_all
    with eq p2 obtain te where te: "targetEl tg = Some te" by (cases "targetEl tg") simp_all
    with eq p2 pe have "p' = activate t (options tg) pe te ty p2" by simp
    with tg cb pe te True p2 show ?thesis by (rule applied)
  qed
qed

lemma set_keeps:
  assumes "Toggle_set t evt ty p = Inr p'"
  shows "toggle p' = toggle p \<and> selects p' = selects p \<and> doc_order p' = doc_order p"
  using assms
proof (cases rule: set_cases)
  case (veto tg cb)
  then show ?thesis by simp
next
  case (applied tg cb pe te p2)
  from applied(6) have "toggle p2 = toggle p \<and> selects p2 = selects p \<and> doc_order p2 = doc_order p"
    using unsetAll_keeps [of t "log_call (BeforeUnsetAll t) (log_call (BeforeSet t) p)" p2]
    by (auto split: if_splits)
  with applied show ?thesis by (simp add: activate_fields)
qed

lemma auto_activation_keeps:
  assumes "auto_activation inst t tg p = Inr p'"
  shows "toggle p' = toggle p"
  using assms set_keeps unset_keeps(1)
  by (auto simp: auto_activation_def split: option.splits if_splits auto_val.splits)

section \<open>A vetoed activation\<close>

text \<open>
  Claim C3. When the \<^verbatim>\<open>beforeSet\<close> hook of a trigger returns false, \<^verbatim>\<open>set\<close> returns
  normally and leaves the page as it was, but for the record that \<^verbatim>\<open>beforeSet\<close> ran:
  no class is added to trigger, parent or target (so an inactive trigger stays
  inactive), no listener and no timer is registered, and no other hook is called.
\<close>

theorem set_vetoed_by_beforeSet:
  assumes "map_of (toggle p) t = Some tg" and "callbacks tg = Some cb"
    and "\<not> beforeSet cb t evt"
  shows "Toggle_set t evt ty p = Inr (p\<lparr>calls := calls p @ [BeforeSet t]\<rparr>)"
  using assms by (simp add: Toggle_set_def Let_def log_call_def)

theorem set_vetoed_by_beforeSet_witness:
  "Toggle_set 2 None [] (one_trigger default_options (pass_callbacks\<lparr>beforeSet := \<lambda>_ _. False\<rparr>))
   = Inr ((one_trigger default_options (pass_callbacks\<lparr>beforeSet := \<lambda>_ _. False\<rparr>))
            \<lparr>calls := [BeforeSet 2]\<rparr>)"
  using set_vetoed_by_beforeSet
    [of "one_trigger default_options (pass_callbacks\<lparr>beforeSet := \<lambda>_ _. False\<rparr>)" 2
        "bound_to default_options 1 3 (pass_callbacks\<lparr>beforeSet := \<lambda>_ _. False\<rparr>)"
        "pass_callbacks\<lparr>beforeSet := \<lambda>_ _. False\<rparr>" None "[]"]
  by (simp add: sample_defs)

section \<open>What toggle does\<close>

text \<open>
  Claim C4. For a bound trigger, \<^verbatim>\<open>toggle\<close> on an active trigger is \<^verbatim>\<open>unset\<close> when
  \<^verbatim>\<open>unsetSelf\<close> holds and the event is not a \<^verbatim>\<open>mouseenter\<close>; on an active trigger with
  \<^verbatim>\<open>unsetSelf\<close> false, or on a \<^verbatim>\<open>mouseenter\<close>, it does nothing; on an inactive trigger it
  is \<^verbatim>\<open>set\<close> with the event and its type.
\<close>

theorem toggle_dispatch:
  assumes "map_of (toggle p) t = Some tg"
  shows "(active p t \<and> unsetSelf (options tg) \<and> type_of_event evt \<noteq> ''mouseenter''
            \<longrightarrow> Toggle_toggle t evt p = Toggle_unset t p)
       \<and> (active p t \<and> (\<not> unsetSelf (options tg) \<or> type_of_event evt = ''mouseenter'')
            \<longrightarrow> Toggle_toggle t evt p = Inr p)
       \<and> (\<not> active p t \<longrightarrow> Toggle_toggle t evt p = Toggle_set t evt (type_of_event evt) p)"
  using assms by (auto simp: Toggle_toggle_def active_def type_of_event_def Let_def)

theorem toggle_dispatch_witness:
  "Toggle_toggle 2 (Some (click_on 2)) (marked [1, 2, 3] (one_trigger default_options pass_callbacks))
     = Toggle_unset 2 (marked [1, 2, 3] (one_trigger default_options pass_callbacks))
   \<and> Toggle_toggle 2 (Some (mouseenter_on 2)) (marked [1, 2, 3] (one_trigger default_options pass_callbacks))
     = Inr (marked [1, 2, 3] (one_trigger default_options pass_callbacks))
   \<and> Toggle_toggle 2 (Some (click_on 2))
       (marked [1, 2, 3] (one_trigger (default_options\<lparr>unsetSelf := False\<rparr>) pass_callbacks))
     = Inr (marked [1, 2, 3] (one_trigger (default_options\<lparr>unsetSelf := False\<rparr>) pass_callbacks))
   \<and> Toggle_toggle 2 (Some (click_on 2)) (one_trigger default_options pass_callbacks)
     = Toggle_set 2 (Some (click_on 2)) ''click'' (one_trigger default_options pass_callbacks)"
  using
    toggle_dispatch [of "marked [1, 2, 3] (one_trigger default_options pass_callbacks)" 2
      "bound_to default_options 1 3 pass_callbacks" "Some (click_on 2)"]
    toggle_dispatch [of "marked [1, 2, 3] (one_trigger default_options pass_callbacks)" 2
      "bound_to default_options 1 3 pass_callbacks" "Some (mouseenter_on 2)"]
    toggle_dispatch [of "marked [1, 2, 3] (one_trigger (default_options\<lparr>unsetSelf := False\<rparr>) pass_callbacks)" 2
      "bound_to (default_options\<lparr>unsetSelf := False\<rparr>) 1 3 pass_callbacks" "Some (click_on 2)"]
    toggle_dispatch [of "one_trigger default_options pass_callbacks" 2
      "bound_to default_options 1 3 pass_callbacks" "Some (click_on 2)"]
  by (simp add: sample_defs active_def has_class_def type_of_event_def)

section \<open>What unset does\<close>

text \<open>
  Claim C5. For a trigger that is set up, \<^verbatim>\<open>unset\<close> does nothing at all when the trigger
  is not active; when it is active and \<^verbatim>\<open>beforeUnset\<close> returns false, the page stays as it
  was but for the record that \<^verbatim>\<open>beforeUnset\<close> ran (no class changes, \<^verbatim>\<open>afterUnset\<close> does
  not run); when it is active and \<^verbatim>\<open>beforeUnset\<close> returns true, the active class is
  removed from trigger, parent and target, the click listener is removed from the
  target, \<^verbatim>\<open>afterUnset\<close> runs after \<^verbatim>\<open>beforeUnset\<close>, and nothing else changes.
\<close>

theorem unset_guarded:
  assumes "map_of (toggle p) t = Some tg" and "callbacks tg = Some cb"
    and "parentEl tg = Some pe" and "targetEl tg = Some te"
  shows "(\<not> active p t \<longrightarrow> Toggle_unset t p = Inr p)
       \<and> (active p t \<and> \<not> beforeUnset cb t
            \<longrightarrow> Toggle_unset t p = Inr (p\<lparr>calls := calls p @ [BeforeUnset t]\<rparr>))
       \<and> (active p t \<and> beforeUnset cb t
            \<longrightarrow> Toggle_unset t p =
                Inr (p\<lparr>classList := (\<lambda>e. if e \<in> {t, pe, te}
                                         then classList p e - {activeClass (options tg)}
                                         else classList p e),
                       clickListeners := clickListeners p - {te},
                       calls := calls p @ [BeforeUnset t, AfterUnset t]\<rparr>))"
  using assms
  by (auto simp: Toggle_unset_def active_def Let_def log_call_def remove_class_def fun_eq_iff)

theorem unset_guarded_witness:
  "Toggle_unset 2 (one_trigger default_options pass_callbacks)
     = Inr (one_trigger default_options pass_callbacks)
   \<and> Toggle_unset 2
       (marked [1, 2, 3] (one_trigger default_options (pass_callbacks\<lparr>beforeUnset := \<lambda>_. False\<rparr>)))
     = Inr ((marked [1, 2, 3] (one_trigger default_options (pass_callbacks\<lparr>beforeUnset := \<lambda>_. False\<rparr>)))
              \<lparr>calls := [BeforeUnset 2]\<rparr>)
   \<and> Toggle_unset 2
       ((marked [1, 2, 3] (one_trigger default_options pass_callbacks))\<lparr>clickListeners := {3}\<rparr>)
     = Inr ((one_trigger default_options pass_callbacks)\<lparr>calls := [BeforeUnset 2, AfterUnset 2]\<rparr>)"
  using
    unset_guarded [of "one_trigger default_options pass_callbacks" 2
      "bound_to default_options 1 3 pass_callbacks" pass_callbacks 1 3]
    unset_guarded [of "marked [1, 2, 3] (one_trigger default_options (pass_callbacks\<lparr>beforeUnset := \<lambda>_. False\<rparr>))" 2
      "bound_to default_options 1 3 (pass_callbacks\<lparr>beforeUnset := \<lambda>_. False\<rparr>)"
      "pass_callbacks\<lparr>beforeUnset := \<lambda>_. False\<rparr>" 1 3]
    unset_guarded [of "(marked [1, 2, 3] (one_trigger default_options pass_callbacks))\<lparr>clickListeners := {3}\<rparr>" 2
      "bound_to default_options 1 3 pass_callbacks" pass_callbacks 1 3]
  by (auto simp: sample_defs active_def has_class_def fun_eq_iff)

section \<open>Elements without a binding in the sweep\<close>

text \<open>
  Claim C10. In the loop of \<^verbatim>\<open>unsetAll\<close>, an element that has no \<^verbatim>\<open>toggle\<close> record is
  passed over: the step for it returns normally and leaves the page as it was. So
  \<^verbatim>\<open>unsetAll\<close> does exactly what it would do if the elements without a record were not
  in its node list: they are never unset, and whether the sweep fails does not depend
  on them.
\<close>

theorem unsetAll_skips_unbound:
  "(map_of (toggle p) e = None \<longrightarrow> sweep_step ro e p = Inr p)
   \<and> (map_of (toggle p) refTrigger = Some tg \<longrightarrow>
        Toggle_unsetAll refTrigger p =
          sweep (options tg)
            (filter (\<lambda>e. map_of (toggle p) e \<noteq> None)
               (querySelectorAll p (CHR ''.'' # activeClass (options tg)))) p)"
  using sweep_unbound [of "options tg" "querySelectorAll p (CHR ''.'' # activeClass (options tg))" p]
  by (simp add: sweep_step_def Toggle_unsetAll_def)

theorem unsetAll_skips_unbound_witness:
  "sweep_step default_options 4 (marked [1, 2, 3, 4] (one_trigger default_options pass_callbacks))
     = Inr (marked [1, 2, 3, 4] (one_trigger default_options pass_callbacks))
   \<and> Toggle_unsetAll 2 (marked [1, 2, 3, 4] (one_trigger default_options pass_callbacks))
     = sweep default_options [2] (marked [1, 2, 3, 4] (one_trigger default_options pass_callbacks))"
  using unsetAll_skips_unbound
    [of "marked [1, 2, 3, 4] (one_trigger default_options pass_callbacks)" 4 default_options 2
        "bound_to default_options 1 3 pass_callbacks"]
  by (simp add: sample_defs querySelectorAll_def matches_def)

section \<open>Dismissal handles after unset\<close>

lemma run_append:
  "run (as @ bs) p = (case run as p of Inl x \<Rightarrow> Inl x | Inr q \<Rightarrow> run bs q)"
  by (induction as arbitrary: p) (auto split: sum.splits)

lemma set_unset_round:
  "run [Set 2 None [], Unset 2]
     ((one_trigger (default_options\<lparr>unsetOnHoverOut := True, timeout := 500\<rparr>) pass_callbacks)
        \<lparr>bodyListeners := b, leaveListeners := l, timers := tm, calls := c\<rparr>)
   = Inr ((one_trigger (default_options\<lparr>unsetOnHoverOut := True, timeout := 500\<rparr>) pass_callbacks)
            \<lparr>bodyListeners := b @ [(''click'', 2)],
             leaveListeners := l @ [(1, 2)],
             timers := tm @ [(500, TimerUnset 2)],
             calls := c @ [BeforeSet 2, BeforeUnsetAll 2, AfterSet 2, BeforeUnset 2, AfterUnset 2]\<rparr>)"
  by (simp add: eval_defs sample_defs fun_eq_iff)

text \<open>
  Claim C7, which the code does not meet. \<^verbatim>\<open>unset\<close> removes the click listener of the
  target and nothing else: the listener on the body, the \<^verbatim>\<open>mouseleave\<close> listener on the
  parent and the timer that \<^verbatim>\<open>set\<close> registered are still there after \<^verbatim>\<open>set\<close> followed
  by \<^verbatim>\<open>unset\<close>, and a second activation registers each of them a second time.
\<close>

theorem unset_leaves_dismissal_handles:
  "run [Set 2 None [], Unset 2]
     (one_trigger (default_options\<lparr>unsetOnHoverOut := True, timeout := 500\<rparr>) pass_callbacks)
   = Inr ((one_trigger (default_options\<lparr>unsetOnHoverOut := True, timeout := 500\<rparr>) pass_callbacks)
            \<lparr>bodyListeners := [(''click'', 2)],
             leaveListeners := [(1, 2)],
             timers := [(500, TimerUnset 2)],
             calls := [BeforeSet 2, BeforeUnsetAll 2, AfterSet 2, BeforeUnset 2, AfterUnset 2]\<rparr>)
   \<and> run [Set 2 None [], Unset 2, Set 2 None [], Unset 2]
     (one_trigger (default_options\<lparr>unsetOnHoverOut := True, timeout := 500\<rparr>) pass_callbacks)
   = Inr ((one_trigger (default_options\<lparr>unsetOnHoverOut := True, timeout := 500\<rparr>) pass_callbacks)
            \<lparr>bodyListeners := [(''click'', 2), (''click'', 2)],
             leaveListeners := [(1, 2), (1, 2)],
             timers := [(500, TimerUnset 2), (500, TimerUnset 2)],
             calls := [BeforeSet 2, BeforeUnsetAll 2, AfterSet 2, BeforeUnset 2, AfterUnset 2,
                       BeforeSet 2, BeforeUnsetAll 2, AfterSet 2, BeforeUnset 2, AfterUnset 2]\<rparr>)"
proof -
  let ?pg = "one_trigger (default_options\<lparr>unsetOnHoverOut := True, timeout := 500\<rparr>) pass_callbacks"
  have start: "?pg = ?pg\<lparr>bodyListeners := [], leaveListeners := [], timers := [], calls := []\<rparr>"
    by (simp add: sample_defs)
  have once: "run [Set 2 None [], Unset 2] ?pg
      = Inr (?pg\<lparr>bodyListeners := [] @ [(''click'', 2)], leaveListeners := [] @ [(1, 2)],
                  timers := [] @ [(500, TimerUnset 2)],
                  calls := [] @ [BeforeSet 2, BeforeUnsetAll 2, AfterSet 2, BeforeUnset 2, AfterUnset 2]\<rparr>)"
    using set_unset_round [of "[]" "[]" "[]" "[]"] start by metis
  have split: "[Set 2 None [], Unset 2, Set 2 None [], Unset 2]
      = [Set 2 None [], Unset 2] @ [Set 2 None [], Unset 2]"
    by simp
  have twice: "run [Set 2 None [], Unset 2, Set 2 None [], Unset 2] ?pg
      = run [Set 2 None [], Unset 2]
          (?pg\<lparr>bodyListeners := [] @ [(''click'', 2)], leaveListeners := [] @ [(1, 2)],
                  timers := [] @ [(500, TimerUnset 2)],
                  calls := [] @ [BeforeSet 2, BeforeUnsetAll 2, AfterSet 2, BeforeUnset 2, AfterUnset 2]\<rparr>)"
    unfolding split run_append once by simp
  show ?thesis
    unfolding twice set_unset_round once by simp
qed

section \<open>Automatic activation with the value true\<close>

text \<open>What the option \<^verbatim>\<open>auto\<close> starts, by the kind of its value.\<close>

lemma auto_activation_dispatch:
  "auto (options tg) = Some (AutoNum n) \<Longrightarrow> n \<noteq> 0
     \<Longrightarrow> auto_activation inst t tg p = Inr (p\<lparr>timers := timers p @ [(n, TimerSet t)]\<rparr>)"
  "auto (options tg) = Some (AutoStr s) \<Longrightarrow> s \<noteq> [] \<Longrightarrow> stringToNumber p s = None
     \<Longrightarrow> urlParams p s
     \<Longrightarrow> auto_activation inst t tg p = Toggle_set t None [] p"
  "auto (options tg) = Some (AutoStr s) \<Longrightarrow> s \<noteq> [] \<Longrightarrow> stringToNumber p s = None
     \<Longrightarrow> \<not> urlParams p s \<Longrightarrow> breakpoints inst = None
     \<Longrightarrow> auto_activation inst t tg p = Inr p"
  "auto (options tg) = Some (AutoStr s) \<Longrightarrow> s \<noteq> [] \<Longrightarrow> stringToNumber p s = None
     \<Longrightarrow> \<not> urlParams p s \<Longrightarrow> breakpoints inst = Some table \<Longrightarrow> table s = None
     \<Longrightarrow> auto_activation inst t tg p = Toggle_unset t p"
  "auto (options tg) = Some (AutoStr s) \<Longrightarrow> s \<noteq> [] \<Longrightarrow> stringToNumber p s = None
     \<Longrightarrow> \<not> urlParams p s \<Longrightarrow> breakpoints inst = Some table
     \<Longrightarrow> table s = Some \<lparr>bp_min = lo, bp_max = hi\<rparr>
     \<Longrightarrow> auto_activation inst t tg p =
         (if (case lo of None \<Rightarrow> True | Some m \<Rightarrow> m = 0 \<or> m \<le> offsetWidth p)
             \<and> (case hi of None \<Rightarrow> True | Some m \<Rightarrow> m = 0 \<or> offsetWidth p \<le> m)
          then Toggle_set t None [] p else Toggle_unset t p)"
  "auto (options tg) = Some (AutoBool True)
     \<Longrightarrow> auto_activation inst t tg p = Inr (p\<lparr>timers := timers p @ [(1, TimerSet t)]\<rparr>)"
  "auto (options tg) = Some AutoObj
     \<Longrightarrow> auto_activation inst t tg p = Toggle_set t None [] p"
  by (simp_all add: auto_activation_def truthy_auto_def toNumber_def)

text \<open>
  Claim C8, which the code does not meet for \<^verbatim>\<open>auto: true\<close>. The host's \<^verbatim>\<open>isNaN(true)\<close> is
  false, so the first branch is taken: setup registers a timer of one millisecond
  that will call \<^verbatim>\<open>set\<close>, and returns with the trigger inactive and no hook called.
\<close>

theorem auto_true_schedules_timer:
  "\<exists>p'. setupTrigger plain_instance 2
          (attr_page 2 (no_options\<lparr>r_target := Some ''#only'', r_auto := Some (AutoBool True)\<rparr>))
          = Inr p'
       \<and> timers p' = [(1, TimerSet 2)] \<and> calls p' = [] \<and> \<not> active p' 2"
  by (simp add: setup_defs active_def eval_defs sample_defs)

section \<open>Resolving the target\<close>

text \<open>
  What \<^verbatim>\<open>_getTarget\<close> returns: with more than one match in the document, the first element
  in document order that has the parent among its ancestors and matches; with one
  match, that element; with none, nothing.
\<close>

lemma getTarget_cases:
  "1 < length (querySelectorAll p (sel_str (target (options tg)))) \<Longrightarrow> parentEl tg = Some pe
     \<Longrightarrow> getTarget tg p =
          Inr (find (\<lambda>e. pe \<in> set (ancestors p e) \<and> matches p e (sel_str (target (options tg))))
                 (doc_order p))"
  "querySelectorAll p (sel_str (target (options tg))) = [x] \<Longrightarrow> getTarget tg p = Inr (Some x)"
  "querySelectorAll p (sel_str (target (options tg))) = [] \<Longrightarrow> getTarget tg p = Inr None"
  by (simp_all add: getTarget_def Let_def querySelector_in_def)

text \<open>
  When the target selector selects nothing, setup stores the options and the parent on
  the trigger, logs the warning and returns: the callbacks and methods of the trigger
  are what they were (none, on a first setup), and nothing else on the page changes.
\<close>

lemma setup_without_target:
  assumes "getOptions inst t p = Inr opts"
    and "querySelectorAll p (sel_str (target opts)) = []"
  shows "\<exists>pe. setupTrigger inst t p =
           Inr (p\<lparr>toggle := AList.update t
                     \<lparr>options = opts, parentEl = pe, targetEl = None,
                      callbacks = (case map_of (toggle p) t of None \<Rightarrow> None | Some old \<Rightarrow> callbacks old),
                      methods = (case map_of (toggle p) t of None \<Rightarrow> False | Some old \<Rightarrow> methods old)\<rparr>
                     (toggle p),
                  warnings := warnings p @ [t]\<rparr>)"
  using assms by (simp add: setupTrigger_def getTarget_def Let_def) (rule exI, rule refl)

text \<open>
  Claim C9, which the code does not meet in its last part. Target resolution and the
  abort are as the claim says (the two lemmas above), but the abort leaves a record on
  the trigger that has options and no callbacks, and the guard of the sweep takes an
  element with a record for a trigger. On the page \<open>three_declared\<close> the setup of the
  container \<open>1\<close> aborts; the setup of \<open>2\<close> then activates \<open>2\<close> and puts the active class
  on its parent \<open>1\<close>; the setup of \<open>6\<close> activates \<open>6\<close>, whose sweep reaches \<open>1\<close> and throws.
  Without the trigger \<open>1\<close> the same setup of \<open>6\<close> returns with \<open>6\<close> active.
\<close>

theorem aborted_setup_breaks_later_setup:
  "active_after (Toggle_constructor plain_instance [1, 2] three_declared) 2
   \<and> Toggle_constructor plain_instance [1, 2, 6] three_declared = Inl TypeError
   \<and> active_after (Toggle_constructor plain_instance [2, 6] three_declared) 6"
  by (simp add: Toggle_constructor_def setup_defs eval_defs sample_defs active_after_def
        active_def update_conv')

section \<open>The marker on trigger, parent and target\<close>

lemma bound_in_list: "map_of xs k = Some v \<Longrightarrow> k \<in> fst ` set xs"
  by (metis map_of_eq_None_iff option.distinct(1))

lemma isolated_disjoint:
  assumes "isolated p t tg" and "map_of (toggle p) u = Some tu" and "u \<noteq> t"
  shows "triple u tu \<inter> triple t tg = {}"
proof -
  from assms(2) have "u \<in> fst ` set (toggle p)" by (rule bound_in_list)
  with assms(1) have "case map_of (toggle p) u of
          None \<Rightarrow> True
        | Some tu \<Rightarrow> u \<noteq> t \<longrightarrow> triple u tu \<inter> triple t tg = {}"
    unfolding isolated_def by blast
  with assms(2,3) show ?thesis by simp
qed

lemma isolated_cong:
  assumes "toggle p' = toggle p" and "isolated p t tg"
  shows "isolated p' t tg"
  using assms by (simp add: isolated_def)

lemma marker_agrees_cong:
  assumes "classList p' = classList p" and "marker_agrees p t tg"
  shows "marker_agrees p' t tg"
  using assms by (simp add: marker_agrees_def has_class_def)

lemma triple_bound:
  "parentEl tg = Some pe \<Longrightarrow> targetEl tg = Some te \<Longrightarrow> triple t tg = {t, pe, te}"
  by (auto simp: triple_def)

lemma self_in_triple: "t \<in> triple t tg"
  by (simp add: triple_def)

lemma marker_agrees_transfer:
  assumes same: "\<forall>e \<in> triple u tu. classList p' e = classList p e"
    and m: "marker_agrees p u tu"
  shows "marker_agrees p' u tu"
  unfolding marker_agrees_def has_class_def
proof
  fix e assume e: "e \<in> triple u tu"
  from same e have 1: "classList p' e = classList p e" by blast
  from same self_in_triple [of u tu] have 2: "classList p' u = classList p u" by blast
  from m e
  have "(activeClass (options tu) \<in> classList p e) = (activeClass (options tu) \<in> classList p u)"
    unfolding marker_agrees_def has_class_def by blast
  then show "(activeClass (options tu) \<in> classList p' e)
           = (activeClass (options tu) \<in> classList p' u)"
    unfolding 1 2 .
qed

text \<open>
  A step that changes classes only on the three elements of one trigger, and leaves
  these three in agreement, keeps an isolated trigger in agreement.
\<close>

lemma agrees_update:
  assumes t: "map_of (toggle p) t = Some tg" and iso: "isolated p t tg"
    and ag: "marker_agrees p t tg"
    and e: "map_of (toggle p) e = Some te"
    and out: "\<forall>x. x \<notin> triple e te \<longrightarrow> classList p' x = classList p x"
    and own: "marker_agrees p' e te"
  shows "marker_agrees p' t tg"
proof (cases "e = t")
  case True
  with e t have "te = tg" by simp
  with True own show ?thesis by simp
next
  case False
  with iso e have "triple e te \<inter> triple t tg = {}" by (rule isolated_disjoint)
  with out have same: "\<forall>x \<in> triple t tg. classList p' x = classList p x" by blast
  from same ag show ?thesis by (rule marker_agrees_transfer)
qed

lemma unset_agrees:
  assumes t: "map_of (toggle p) t = Some tg" and iso: "isolated p t tg"
    and ag: "marker_agrees p t tg" and run: "Toggle_unset e p = Inr p'"
  shows "marker_agrees p' t tg"
  using run
proof (cases rule: unset_cases)
  case same
  with ag show ?thesis by simp
next
  case veto
  then have "classList p' = classList p" by simp
  from this ag show ?thesis by (rule marker_agrees_cong)
next
  case (removed te cb pe ta)
  have tr: "triple e te = {e, pe, ta}" using removed(3,4) by (rule triple_bound)
  have cl: "classList p' = (\<lambda>x. if x \<in> {e, pe, ta}
                                     then classList p x - {activeClass (options te)}
                                     else classList p x)"
    using removed(7) by simp
  have out: "\<forall>x. x \<notin> triple e te \<longrightarrow> classList p' x = classList p x"
    unfolding tr cl by simp
  have own: "marker_agrees p' e te"
    unfolding marker_agrees_def has_class_def tr cl by simp
  from t iso ag removed(1) out own show ?thesis by (rule agrees_update)
qed

lemma sweep_agrees:
  assumes "map_of (toggle p) t = Some tg" and "isolated p t tg" and "marker_agrees p t tg"
    and "sweep ro es p = Inr p'"
  shows "marker_agrees p' t tg"
  using assms
proof (induction es arbitrary: p)
  case Nil
  then show ?case by simp
next
  case (Cons e es)
  from Cons.prems(4) obtain q where q: "sweep_step ro e p = Inr q" and r: "sweep ro es q = Inr p'"
    by (auto split: sum.splits)
  from q have "q = p \<or> Toggle_unset e p = Inr q"
    by (auto simp: sweep_step_def split: option.splits if_splits)
  with Cons.prems(1-3) have aq: "marker_agrees q t tg" using unset_agrees by blast
  from q have tq: "toggle q = toggle p" by (rule sweep_step_keeps)
  from tq Cons.prems(2) have iq: "isolated q t tg" by (rule isolated_cong)
  from tq Cons.prems(1) have bq: "map_of (toggle q) t = Some tg" by simp
  from bq iq aq r show ?case by (rule Cons.IH)
qed

lemma unsetAll_agrees:
  assumes "map_of (toggle p) t = Some tg" and "isolated p t tg" and "marker_agrees p t tg"
    and "Toggle_unsetAll r p = Inr p'"
  shows "marker_agrees p' t tg"
proof -
  from assms(4) obtain ro es where "sweep ro es p = Inr p'"
    by (auto simp: Toggle_unsetAll_def split: option.splits)
  with assms(1-3) show ?thesis by (rule sweep_agrees)
qed

lemma set_agrees:
  assumes t: "map_of (toggle p) t = Some tg" and iso: "isolated p t tg"
    and ag: "marker_agrees p t tg" and run: "Toggle_set e evt ty p = Inr p'"
  shows "marker_agrees p' t tg"
  using run
proof (cases rule: set_cases)
  case (veto te cb)
  then have "classList p' = classList p" by simp
  from this ag show ?thesis by (rule marker_agrees_cong)
next
  case (applied te cb pe ta p2)
  let ?q = "log_call (BeforeUnsetAll e) (log_call (BeforeSet e) p)"
  have lq: "classList ?q = classList p" and tq: "toggle ?q = toggle p" by simp_all
  from tq iso have iq: "isolated ?q t tg" by (rule isolated_cong)
  from lq ag have aq: "marker_agrees ?q t tg" by (rule marker_agrees_cong)
  from tq t have bq: "map_of (toggle ?q) t = Some tg" by simp
  from applied(6) have "p2 = ?q \<or> Toggle_unsetAll e ?q = Inr p2" by (auto split: if_splits)
  then have a2: "marker_agrees p2 t tg" and t2: "toggle p2 = toggle p"
    using bq iq aq tq unsetAll_agrees [of ?q t tg e p2] unsetAll_keeps [of e ?q p2] by auto
  from t2 iso have i2: "isolated p2 t tg" by (rule isolated_cong)
  from t t2 have b2: "map_of (toggle p2) t = Some tg" by simp
  from applied(1) t2 have e2: "map_of (toggle p2) e = Some te" by simp
  have tr: "triple e te = {e, pe, ta}" using applied(3,4) by (rule triple_bound)
  have cl: "classList p' = (\<lambda>x. if x \<in> {e, pe, ta}
                               then insert (activeClass (options te)) (classList p2 x)
                               else classList p2 x)"
    using applied(7) by (simp add: activate_fields)
  have out: "\<forall>x. x \<notin> triple e te \<longrightarrow> classList p' x = classList p2 x"
    unfolding tr cl by simp
  have own: "marker_agrees p' e te"
    unfolding marker_agrees_def has_class_def tr cl by simp
  from b2 i2 a2 e2 out own show ?thesis by (rule agrees_update)
qed

lemma toggle_keeps:
  assumes "Toggle_toggle t evt p = Inr p'"
  shows "toggle p' = toggle p"
proof -
  from assms
  have "p' = p \<or> Toggle_unset t p = Inr p' \<or> (\<exists>ty. Toggle_set t evt ty p = Inr p')"
    by (auto simp: Toggle_toggle_def Let_def split: option.splits if_splits)
  then show ?thesis using unset_keeps(1) [of t p p'] set_keeps [of t evt _ p p'] by auto
qed

lemma toggle_agrees:
  assumes "map_of (toggle p) t = Some tg" and "isolated p t tg" and "marker_agrees p t tg"
    and "Toggle_toggle e evt p = Inr p'"
  shows "marker_agrees p' t tg"
proof -
  from assms(4)
  have "p' = p \<or> Toggle_unset e p = Inr p' \<or> (\<exists>ty. Toggle_set e evt ty p = Inr p')"
    by (auto simp: Toggle_toggle_def Let_def split: option.splits if_splits)
  with assms(1-3) show ?thesis
    using unset_agrees [of p t tg e p'] set_agrees [of p t tg e evt _ p'] by auto
qed

text \<open>What a dismissal callback does to the page is an \<^verbatim>\<open>unset\<close> or a \<^verbatim>\<open>set\<close> on a page with the same classes and bindings.\<close>

lemma callback_shape:
  assumes "blurCallback ty t evt p = Inr p' \<or> mouseLeaveCallback pe t p = Inr p'
           \<or> fire_timer tm p = Inr p' \<or> closeElCallback el evt p = Inr p'"
  shows "p' = p \<or> (\<exists>q u. classList q = classList p \<and> toggle q = toggle p
            \<and> (Toggle_unset u q = Inr p' \<or> Toggle_set u None [] q = Inr p'))"
proof -
  consider (b) "blurCallback ty t evt p = Inr p'" | (m) "mouseLeaveCallback pe t p = Inr p'"
    | (f) "fire_timer tm p = Inr p'" | (c) "closeElCallback el evt p = Inr p'"
    using assms by blast
  then show ?thesis
  proof cases
    case b
    let ?q = "p\<lparr>bodyListeners := remove1 (ty, t) (bodyListeners p)\<rparr>"
    from b have "p' = p \<or> Toggle_unset t ?q = Inr p'"
      by (auto simp: blurCallback_def split: option.splits if_splits)
    moreover have "classList ?q = classList p \<and> toggle ?q = toggle p" by simp
    ultimately show ?thesis by blast
  next
    case m
    let ?q = "p\<lparr>leaveListeners := remove1 (pe, t) (leaveListeners p)\<rparr>"
    from m have "Toggle_unset t ?q = Inr p'" by (simp add: mouseLeaveCallback_def)
    moreover have "classList ?q = classList p \<and> toggle ?q = toggle p" by simp
    ultimately show ?thesis by blast
  next
    case f
    let ?q = "p\<lparr>timers := remove1 tm (timers p)\<rparr>"
    from f have "\<exists>u. Toggle_unset u ?q = Inr p' \<or> Toggle_set u None [] ?q = Inr p'"
      by (cases "snd tm") (auto simp: fire_timer_def Let_def)
    moreover have "classList ?q = classList p \<and> toggle ?q = toggle p" by simp
    ultimately show ?thesis by blast
  next
    case c
    from c have "p' = p \<or> (\<exists>u. Toggle_unset u p = Inr p')"
      by (auto simp: closeElCallback_def Let_def split: option.splits if_splits)
    then show ?thesis by blast
  qed
qed

lemma perform_agrees:
  assumes t: "map_of (toggle p) t = Some tg" and iso: "isolated p t tg"
    and ag: "marker_agrees p t tg" and run: "perform a p = Inr p'"
  shows "marker_agrees p' t tg \<and> toggle p' = toggle p"
proof -
  have cb: "marker_agrees p' t tg \<and> toggle p' = toggle p"
    if "p' = p \<or> (\<exists>q u. classList q = classList p \<and> toggle q = toggle p
            \<and> (Toggle_unset u q = Inr p' \<or> Toggle_set u None [] q = Inr p'))"
  proof -
    from that consider "p' = p"
      | q u where "classList q = classList p" "toggle q = toggle p" "Toggle_unset u q = Inr p'"
      | q u where "classList q = classList p" "toggle q = toggle p" "Toggle_set u None [] q = Inr p'"
      by blast
    then show ?thesis
    proof cases
      case 1
      with ag show ?thesis by simp
    next
      case 2
      from 2(1) ag have aq: "marker_agrees q t tg" by (rule marker_agrees_cong)
      from 2(2) iso have iq: "isolated q t tg" by (rule isolated_cong)
      from 2(2) t have bq: "map_of (toggle q) t = Some tg" by simp
      from bq iq aq 2(3) have "marker_agrees p' t tg" by (rule unset_agrees)
      moreover from 2(3) have "toggle p' = toggle q" by (rule unset_keeps)
      ultimately show ?thesis using 2(2) by simp
    next
      case 3
      from 3(1) ag have aq: "marker_agrees q t tg" by (rule marker_agrees_cong)
      from 3(2) iso have iq: "isolated q t tg" by (rule isolated_cong)
      from 3(2) t have bq: "map_of (toggle q) t = Some tg" by simp
      from bq iq aq 3(3) have "marker_agrees p' t tg" by (rule set_agrees)
      moreover from 3(3) have "toggle p' = toggle q" using set_keeps by blast
      ultimately show ?thesis using 3(2) by simp
    qed
  qed
  show ?thesis
  proof (cases a)
    case (Set e evt ty)
    with run have r: "Toggle_set e evt ty p = Inr p'" by simp
    from t iso ag r have "marker_agrees p' t tg" by (rule set_agrees)
    moreover from r have "toggle p' = toggle p" using set_keeps by blast
    ultimately show ?thesis by simp
  next
    case (Unset e)
    with run have r: "Toggle_unset e p = Inr p'" by simp
    from t iso ag r have "marker_agrees p' t tg" by (rule unset_agrees)
    moreover from r have "toggle p' = toggle p" by (rule unset_keeps)
    ultimately show ?thesis by simp
  next
    case (Toggle e evt)
    with run have r: "Toggle_toggle e evt p = Inr p'" by simp
    from t iso ag r have "marker_agrees p' t tg" by (rule toggle_agrees)
    moreover from r have "toggle p' = toggle p" by (rule toggle_keeps)
    ultimately show ?thesis by simp
  next
    case (UnsetAll e)
    with run have r: "Toggle_unsetAll e p = Inr p'" by simp
    from t iso ag r have "marker_agrees p' t tg" by (rule unsetAll_agrees)
    moreover from r have "toggle p' = toggle p" using unsetAll_keeps by blast
    ultimately show ?thesis by simp
  next
    case (Handler e evt)
    with run have r: "Toggle_toggle e (Some evt) p = Inr p'" by (simp add: toggleEventHandler_def)
    from t iso ag r have "marker_agrees p' t tg" by (rule toggle_agrees)
    moreover from r have "toggle p' = toggle p" by (rule toggle_keeps)
    ultimately show ?thesis by simp
  next
    case (Blur ty e evt)
    with run have "blurCallback ty e evt p = Inr p'" by simp
    then show ?thesis using callback_shape [of ty e evt p p'] cb by blast
  next
    case (MouseLeave pe e)
    with run have "mouseLeaveCallback pe e p = Inr p'" by simp
    then show ?thesis using callback_shape [of _ e _ p p' pe] cb by blast
  next
    case (Timer d f)
    with run have "fire_timer (d, f) p = Inr p'" by simp
    then show ?thesis using callback_shape [of _ _ _ p p' _ "(d, f)"] cb by blast
  next
    case (CloseEl el evt)
    with run have "closeElCallback el evt p = Inr p'" by simp
    then show ?thesis using callback_shape [of _ _ evt p p' _ _ el] cb by blast
  qed
qed

lemma active_when_agreeing:
  assumes "map_of (toggle p) t = Some tg" and "marker_agrees p t tg"
  shows "active p t = (\<forall>e \<in> triple t tg. has_class p e (activeClass (options tg)))"
proof -
  from assms(1) have a: "active p t = has_class p t (activeClass (options tg))"
    by (simp add: active_def)
  from assms(2)
  have "\<forall>e \<in> triple t tg.
          has_class p e (activeClass (options tg)) = has_class p t (activeClass (options tg))"
    unfolding marker_agrees_def .
  with self_in_triple [of t tg]
  have "has_class p t (activeClass (options tg))
        = (\<forall>e \<in> triple t tg. has_class p e (activeClass (options tg)))"
    by blast
  then show ?thesis unfolding a .
qed

text \<open>
  Claim C1, as amended. Take a trigger that shares none of its three elements
  (trigger, parent, target) with another trigger, and whose three elements agree on
  its marker: all carry its active class, or none does. Then they agree after any
  sequence of operations that return, on this or on any other trigger: \<^verbatim>\<open>set\<close>,
  \<^verbatim>\<open>unset\<close>, \<^verbatim>\<open>toggle\<close>, \<^verbatim>\<open>unsetAll\<close>, the event handler of a trigger, and the dismissal
  callbacks (outside interaction, hover-out, timer, close control). So the trigger is
  active exactly when trigger, parent and target all carry its active class.
\<close>

theorem marker_never_partial:
  assumes "map_of (toggle p) t = Some tg" and "isolated p t tg" and "marker_agrees p t tg"
    and "run as p = Inr p'"
  shows "map_of (toggle p') t = Some tg \<and> marker_agrees p' t tg
       \<and> active p' t = (\<forall>e \<in> triple t tg. has_class p' e (activeClass (options tg)))"
proof -
  from assms have "map_of (toggle p') t = Some tg \<and> marker_agrees p' t tg"
  proof (induction as arbitrary: p)
    case Nil
    then show ?case by simp
  next
    case (Cons a as)
    from Cons.prems(4) obtain q where q: "perform a p = Inr q" and r: "run as q = Inr p'"
      by (auto split: sum.splits)
    from Cons.prems(1-3) q have aq: "marker_agrees q t tg" and tq: "toggle q = toggle p"
      using perform_agrees by blast+
    from tq Cons.prems(2) have iq: "isolated q t tg" by (rule isolated_cong)
    from tq Cons.prems(1) have bq: "map_of (toggle q) t = Some tg" by simp
    from bq iq aq r show ?case by (rule Cons.IH)
  qed
  then show ?thesis using active_when_agreeing [of p' t tg] by blast
qed

theorem marker_never_partial_witness:
  "isolated shared_parent 6 (bound_to default_options 5 7 pass_callbacks)
   \<and> marker_agrees shared_parent 6 (bound_to default_options 5 7 pass_callbacks)
   \<and> run [Set 2 None [], Set 6 None []] shared_parent
       = Inr ((marked [5, 6, 7] shared_parent)
                \<lparr>clickListeners := {7}, bodyListeners := [(''click'', 2), (''click'', 6)],
                 calls := [BeforeSet 2, BeforeUnsetAll 2, AfterSet 2, BeforeSet 6,
                           BeforeUnsetAll 6, BeforeUnset 2, AfterUnset 2, AfterSet 6]\<rparr>)
   \<and> marker_agrees ((marked [5, 6, 7] shared_parent)
                \<lparr>clickListeners := {7}, bodyListeners := [(''click'', 2), (''click'', 6)],
                 calls := [BeforeSet 2, BeforeUnsetAll 2, AfterSet 2, BeforeSet 6,
                           BeforeUnsetAll 6, BeforeUnset 2, AfterUnset 2, AfterSet 6]\<rparr>)
         6 (bound_to default_options 5 7 pass_callbacks)
   \<and> active ((marked [5, 6, 7] shared_parent)
                \<lparr>clickListeners := {7}, bodyListeners := [(''click'', 2), (''click'', 6)],
                 calls := [BeforeSet 2, BeforeUnsetAll 2, AfterSet 2, BeforeSet 6,
                           BeforeUnsetAll 6, BeforeUnset 2, AfterUnset 2, AfterSet 6]\<rparr>) 6"
proof -
  let ?p' = "(marked [5, 6, 7] shared_parent)
                \<lparr>clickListeners := {7}, bodyListeners := [(''click'', 2), (''click'', 6)],
                 calls := [BeforeSet 2, BeforeUnsetAll 2, AfterSet 2, BeforeSet 6,
                           BeforeUnsetAll 6, BeforeUnset 2, AfterUnset 2, AfterSet 6]\<rparr>"
  have b: "map_of (toggle shared_parent) 6 = Some (bound_to default_options 5 7 pass_callbacks)"
    by (simp add: page_defs)
  have i: "isolated shared_parent 6 (bound_to default_options 5 7 pass_callbacks)"
    by (simp add: isolated_def triple_def page_defs sample_defs)
  have a: "marker_agrees shared_parent 6 (bound_to default_options 5 7 pass_callbacks)"
    by (simp add: marker_agrees_def triple_def has_class_def page_defs sample_defs)
  have first: "Toggle_set 2 None [] shared_parent
       = Inr ((marked [1, 2, 3] shared_parent)
                \<lparr>clickListeners := {3}, bodyListeners := [(''click'', 2)],
                 calls := [BeforeSet 2, BeforeUnsetAll 2, AfterSet 2]\<rparr>)"
    by (simp add: eval_defs page_defs sample_defs fun_eq_iff)
  have second: "Toggle_set 6 None []
         ((marked [1, 2, 3] shared_parent)
                \<lparr>clickListeners := {3}, bodyListeners := [(''click'', 2)],
                 calls := [BeforeSet 2, BeforeUnsetAll 2, AfterSet 2]\<rparr>) = Inr ?p'"
    by (simp add: eval_defs page_defs sample_defs fun_eq_iff)
  from first second have r: "run [Set 2 None [], Set 6 None []] shared_parent = Inr ?p'"
    by simp
  have act: "active ?p' 6"
    by (simp add: active_def has_class_def page_defs sample_defs)
  from marker_never_partial [OF b i a r] i a r act show ?thesis by blast
qed

text \<open>
  The claim as it stands fails in two ways. Where two triggers have the same parent,
  \<^verbatim>\<open>set\<close> on the trigger \<open>2\<close> puts the active class on the parent \<open>1\<close> of the trigger \<open>4\<close>,
  which stays inactive with its parent marked. And where the markup has the class on
  the trigger alone, an operation that changes nothing (here an \<^verbatim>\<open>unset\<close> that
  \<^verbatim>\<open>beforeUnset\<close> refuses) returns with the three elements still in disagreement.
\<close>

theorem marker_partial_counterexample:
  "marker_agrees shared_parent 4 (bound_to default_options 1 8 pass_callbacks)
   \<and> Toggle_set 2 None [] shared_parent
       = Inr ((marked [1, 2, 3] shared_parent)
                \<lparr>clickListeners := {3}, bodyListeners := [(''click'', 2)],
                 calls := [BeforeSet 2, BeforeUnsetAll 2, AfterSet 2]\<rparr>)
   \<and> map_of (toggle (marked [1, 2, 3] shared_parent)) 4
       = Some (bound_to default_options 1 8 pass_callbacks)
   \<and> \<not> has_class (marked [1, 2, 3] shared_parent) 4 ''toggle--active''
   \<and> has_class (marked [1, 2, 3] shared_parent) 1 ''toggle--active''
   \<and> \<not> has_class (marked [1, 2, 3] shared_parent) 8 ''toggle--active''
   \<and> isolated (marked [2] (one_trigger default_options (pass_callbacks\<lparr>beforeUnset := \<lambda>_. False\<rparr>)))
        2 (bound_to default_options 1 3 (pass_callbacks\<lparr>beforeUnset := \<lambda>_. False\<rparr>))
   \<and> Toggle_unset 2 (marked [2] (one_trigger default_options (pass_callbacks\<lparr>beforeUnset := \<lambda>_. False\<rparr>)))
       = Inr ((marked [2] (one_trigger default_options (pass_callbacks\<lparr>beforeUnset := \<lambda>_. False\<rparr>)))
                \<lparr>calls := [BeforeUnset 2]\<rparr>)
   \<and> has_class (marked [2] (one_trigger default_options (pass_callbacks\<lparr>beforeUnset := \<lambda>_. False\<rparr>)))
        2 ''toggle--active''
   \<and> \<not> has_class (marked [2] (one_trigger default_options (pass_callbacks\<lparr>beforeUnset := \<lambda>_. False\<rparr>)))
        1 ''toggle--active''"
proof -
  have "marker_agrees shared_parent 4 (bound_to default_options 1 8 pass_callbacks)"
    by (simp add: marker_agrees_def triple_def has_class_def page_defs sample_defs)
  moreover have "Toggle_set 2 None [] shared_parent
       = Inr ((marked [1, 2, 3] shared_parent)
                \<lparr>clickListeners := {3}, bodyListeners := [(''click'', 2)],
                 calls := [BeforeSet 2, BeforeUnsetAll 2, AfterSet 2]\<rparr>)"
    by (simp add: eval_defs page_defs sample_defs fun_eq_iff)
  moreover have "map_of (toggle (marked [1, 2, 3] shared_parent)) 4
       = Some (bound_to default_options 1 8 pass_callbacks)"
    by (simp add: page_defs sample_defs)
  moreover have "\<not> has_class (marked [1, 2, 3] shared_parent) 4 ''toggle--active''"
    and "has_class (marked [1, 2, 3] shared_parent) 1 ''toggle--active''"
    and "\<not> has_class (marked [1, 2, 3] shared_parent) 8 ''toggle--active''"
    by (simp_all add: has_class_def page_defs sample_defs)
  moreover have "isolated (marked [2] (one_trigger default_options (pass_callbacks\<lparr>beforeUnset := \<lambda>_. False\<rparr>)))
        2 (bound_to default_options 1 3 (pass_callbacks\<lparr>beforeUnset := \<lambda>_. False\<rparr>))"
    by (simp add: isolated_def sample_defs)
  moreover have "Toggle_unset 2 (marked [2] (one_trigger default_options (pass_callbacks\<lparr>beforeUnset := \<lambda>_. False\<rparr>)))
       = Inr ((marked [2] (one_trigger default_options (pass_callbacks\<lparr>beforeUnset := \<lambda>_. False\<rparr>)))
                \<lparr>calls := [BeforeUnset 2]\<rparr>)"
    by (simp add: eval_defs sample_defs)
  moreover have "has_class (marked [2] (one_trigger default_options (pass_callbacks\<lparr>beforeUnset := \<lambda>_. False\<rparr>)))
        2 ''toggle--active''"
    and "\<not> has_class (marked [2] (one_trigger default_options (pass_callbacks\<lparr>beforeUnset := \<lambda>_. False\<rparr>)))
        1 ''toggle--active''"
    by (simp_all add: has_class_def sample_defs)
  ultimately show ?thesis by blast
qed

section \<open>The sweep of unsetAll\<close>

lemma unset_shrinks:
  assumes "Toggle_unset t p = Inr p'"
  shows "classList p' e \<subseteq> classList p e"
  using assms
proof (cases rule: unset_cases)
  case same
  then show ?thesis by simp
next
  case veto
  then show ?thesis by simp
next
  case (removed tg cb pe te)
  from removed(7) have "classList p' = (\<lambda>e. if e \<in> {t, pe, te}
                                     then classList p e - {activeClass (options tg)}
                                     else classList p e)"
    by simp
  then show ?thesis by auto
qed


lemma sweep_step_shrinks:
  assumes "sweep_step ro e p = Inr p'"
  shows "classList p' x \<subseteq> classList p x"
proof -
  from assms have "p' = p \<or> Toggle_unset e p = Inr p'"
    by (auto simp: sweep_step_def split: option.splits if_splits)
  then show ?thesis using unset_shrinks [of e p p' x] by auto
qed

lemma sweep_shrinks:
  assumes "sweep ro es p = Inr p'"
  shows "classList p' x \<subseteq> classList p x"
  using assms
proof (induction es arbitrary: p)
  case Nil
  then show ?case by simp
next
  case (Cons e es)
  then obtain q where q: "sweep_step ro e p = Inr q" and r: "sweep ro es q = Inr p'"
    by (auto split: sum.splits)
  from Cons.IH [OF r] sweep_step_shrinks [OF q, of x] show ?case by blast
qed











section \<open>One active trigger in a sibling group\<close>




end
